theory Spec2Isabelle
  imports Main
begin

section \<open>Extraction of Lua scripts from a Roblox place file\<close>

text \<open>
  A shallow embedding of \<^verbatim>\<open>extract_with_structure_v2.py\<close>.

  A Python \<^verbatim>\<open>str\<close> is represented by the byte sequence of its UTF-8 encoding
  (a \<^typ>\<open>string\<close>). Every character the program inspects (the nine characters of
  \<^verbatim>\<open>clean_name\<close>, the path separator, the decimal digits, the extension) is ASCII,
  and every byte of the UTF-8 encoding of a non-ASCII character is at least 128, so
  the program acts on the encoding exactly as it acts on the code points. The output
  files are written with \<^verbatim>\<open>encoding='utf-8'\<close>, so the content of a file is that same
  byte sequence.
\<close>

subsection \<open>\<^verbatim>\<open>clean_name\<close>\<close>

text \<open>The character class \<^verbatim>\<open>[<>:"/\\|?*]\<close> of the regular expression.\<close>

definition invalid_chars :: "char list" where
  "invalid_chars =
     [CHR ''<'', CHR ''>'', CHR '':'', CHR 0x22, CHR ''/'', CHR 0x5C, CHR ''|'', CHR ''?'', CHR ''*'']"

text \<open>
  \<^verbatim>\<open>re.sub(r'[<>:"/\\|?*]', '_', name)\<close>: the pattern matches exactly one character, so
  the scan replaces each matching character by an underscore and copies every other one.
\<close>

fun clean_name :: "string \<Rightarrow> string" where
  "clean_name [] = []"
| "clean_name (c # cs) = (if c \<in> set invalid_chars then CHR ''_'' else c) # clean_name cs"

subsection \<open>The parsed XML tree\<close>

text \<open>
  An \<^verbatim>\<open>xml.etree.ElementTree.Element\<close>: its tag, its attribute dictionary, its
  \<^verbatim>\<open>text\<close> (selector \<open>etext\<close>; \<^verbatim>\<open>None\<close> when absent) and its children in document
  order.
\<close>

datatype element =
  Element (tag: string) (attrib: "(string \<times> string) list") (etext: "string option")
    (children: "element list")

text \<open>
  Elements are compared and hashed by identity. The identity of an element of the tree
  is its position: the list of child indices leading to it from the root, the root
  being \<open>[]\<close>. A node handle is the position together with the element found there.
\<close>

type_synonym position = "nat list"
type_synonym node = "position \<times> element"

text \<open>\<^verbatim>\<open>root.iter()\<close>: every element of the tree in document (pre-)order.\<close>

fun iter_at :: "position \<Rightarrow> element \<Rightarrow> node list"
  and iter_children :: "position \<Rightarrow> nat \<Rightarrow> element list \<Rightarrow> node list" where
  "iter_at p (Element t a x cs) = (p, Element t a x cs) # iter_children p 0 cs"
| "iter_children p i [] = []"
| "iter_children p i (c # cs) = iter_at (p @ [i]) c @ iter_children p (Suc i) cs"

definition iter :: "element \<Rightarrow> node list" where
  "iter root = iter_at [] root"

text \<open>\<^verbatim>\<open>root.iter('Item')\<close>: the same traversal, keeping the elements whose tag is \<^verbatim>\<open>Item\<close>.\<close>

definition iter_tag :: "element \<Rightarrow> string \<Rightarrow> node list" where
  "iter_tag root t = filter (\<lambda>(p, e). tag e = t) (iter root)"

text \<open>\<^verbatim>\<open>for child in parent\<close>: the children of a node, as node handles.\<close>

definition child_nodes :: "node \<Rightarrow> node list" where
  "child_nodes parent =
     map (\<lambda>(i, c). (fst parent @ [i], c)) (List.enumerate 0 (children (snd parent)))"

text \<open>\<^verbatim>\<open>item.get(key)\<close> on the attribute dictionary.\<close>

definition get :: "element \<Rightarrow> string \<Rightarrow> string option" where
  "get e key = map_of (attrib e) key"

text \<open>
  \<^verbatim>\<open>item.find('./Properties/<t>[@name="<n>"]')\<close>: the first element, in document order,
  among the children tagged \<open>t\<close> with attribute \<^verbatim>\<open>name\<close> equal to \<open>n\<close> of the children
  tagged \<^verbatim>\<open>Properties\<close> of the item.
\<close>

definition find_property :: "element \<Rightarrow> string \<Rightarrow> string \<Rightarrow> element option" where
  "find_property item t n =
     (case [s. props \<leftarrow> children item, tag props = ''Properties'',
               s \<leftarrow> children props, tag s = t, get s ''name'' = Some n] of
        [] \<Rightarrow> None
      | s # _ \<Rightarrow> Some s)"

text \<open>
  \<^verbatim>\<open>elem is not None and elem.text\<close>: the text of an optional element when the element
  is present and its text is neither \<^verbatim>\<open>None\<close> nor empty.
\<close>

definition truthy_text :: "element option \<Rightarrow> string option" where
  "truthy_text elem =
     (case elem of
        None \<Rightarrow> None
      | Some e \<Rightarrow> (case etext e of None \<Rightarrow> None | Some t \<Rightarrow> if t = [] then None else Some t))"

definition name_text :: "element \<Rightarrow> string option" where
  "name_text item = truthy_text (find_property item ''string'' ''Name'')"

definition source_text :: "element \<Rightarrow> string option" where
  "source_text item = truthy_text (find_property item ''ProtectedString'' ''Source'')"

subsection \<open>\<^verbatim>\<open>find_parent_service\<close>\<close>

definition service_names :: "string list" where
  "service_names =
     [''ServerScriptService'', ''ServerStorage'', ''ReplicatedStorage'',
      ''StarterPlayer'', ''StarterGui'', ''Workspace'']"

text \<open>
  Lines 22--26: the dictionary from each child to its parent, filled by one pass over
  \<^verbatim>\<open>root.iter()\<close>.
\<close>

definition build_parent_map :: "element \<Rightarrow> (position \<rightharpoonup> node)" where
  "build_parent_map root =
     fold (\<lambda>parent parent_map.
             fold (\<lambda>child m. m(fst child \<mapsto> parent)) (child_nodes parent) parent_map)
          (iter root) Map.empty"

text \<open>
  Lines 29--43: the upward walk. \<open>current\<close> is \<^verbatim>\<open>None\<close> or a node; the walk stops at
  \<^verbatim>\<open>None\<close> and at the root. The loop follows an arbitrary dictionary, so nothing in
  its text bounds it: the result is \<open>None\<close> when it does not return.
\<close>

partial_function (option) walk_up ::
    "(position \<rightharpoonup> node) \<Rightarrow> node option \<Rightarrow> string list \<Rightarrow> (string option \<times> string list) option"
where
  "walk_up parent_map current path =
     (case current of
        None \<Rightarrow> Some (None, [])
      | Some (p, e) \<Rightarrow>
          if p = [] then Some (None, [])
          else (case (if tag e = ''Item'' then name_text e else None) of
                  Some item_name \<Rightarrow>
                    if item_name \<in> set service_names
                    then Some (Some item_name, rev (butlast (path @ [item_name])))
                    else walk_up parent_map (parent_map p) (path @ [item_name])
                | None \<Rightarrow> walk_up parent_map (parent_map p) path))"

declare walk_up.simps [code]

definition find_parent_service ::
    "node \<Rightarrow> element \<Rightarrow> (string option \<times> string list) option" where
  "find_parent_service element root =
     (let parent_map = build_parent_map root
      in walk_up parent_map (Some element) [])"

subsection \<open>Paths and the file system\<close>

text \<open>
  \<^verbatim>\<open>posixpath.join(a, *p)\<close>: a component that starts with a slash replaces what was
  joined so far; otherwise it is appended, after a slash unless the path so far is
  empty or already ends with one.
\<close>

fun join :: "string \<Rightarrow> string list \<Rightarrow> string" where
  "join a [] = a"
| "join a (b # bs) =
     join (if b \<noteq> [] \<and> hd b = CHR ''/'' then b
           else if a = [] \<or> last a = CHR ''/'' then a @ b
           else a @ ''/'' @ b) bs"

text \<open>
  \<^verbatim>\<open>posixpath.dirname(p)\<close>: the part up to and including the last slash, without its
  trailing slashes unless it consists of slashes only.
\<close>

definition dirname :: "string \<Rightarrow> string" where
  "dirname p =
     (let head = rev (dropWhile (\<lambda>c. c \<noteq> CHR ''/'') (rev p))
      in if head \<noteq> [] \<and> head \<noteq> replicate (length head) CHR ''/''
         then rev (dropWhile (\<lambda>c. c = CHR ''/'') (rev head))
         else head)"

text \<open>\<^verbatim>\<open>sep.join(parts)\<close> for a string separator.\<close>

fun str_join :: "string \<Rightarrow> string list \<Rightarrow> string" where
  "str_join sep [] = []"
| "str_join sep [x] = x"
| "str_join sep (x # y # ys) = x @ sep @ str_join sep (y # ys)"

text \<open>
  The file system, as far as the program can observe it: the directories and the
  regular files, each named by the path string the program uses for it, the files
  with their contents. Two path strings name the same entry exactly when they are
  equal: the model does not resolve \<^verbatim>\<open>.\<close> and \<^verbatim>\<open>..\<close> components, symbolic links or a
  case-insensitive volume.
\<close>

record filesystem =
  dirs :: "string list"
  files :: "(string \<times> string) list"

datatype error =
    FileExistsError string
  | NotADirectoryError string
  | IsADirectoryError string
  | FileNotFoundError string

definition isdir :: "filesystem \<Rightarrow> string \<Rightarrow> bool" where
  "isdir fs p = (p \<in> set (dirs fs))"

definition isfile :: "filesystem \<Rightarrow> string \<Rightarrow> bool" where
  "isfile fs p = (p \<in> set (map fst (files fs)))"

text \<open>\<^verbatim>\<open>os.path.exists\<close>.\<close>

definition path_exists :: "filesystem \<Rightarrow> string \<Rightarrow> bool" where
  "path_exists fs p = (isdir fs p \<or> isfile fs p)"

text \<open>
  The ancestors of a path and the path itself, shortest first: the prefixes that end
  just before a slash, then the whole path.
\<close>

fun prefixes_from :: "string \<Rightarrow> string \<Rightarrow> string list" where
  "prefixes_from acc [] = [acc]"
| "prefixes_from acc (c # cs) =
     (if c = CHR ''/'' \<and> acc \<noteq> [] then acc # prefixes_from (acc @ [c]) cs
      else prefixes_from (acc @ [c]) cs)"

definition path_prefixes :: "string \<Rightarrow> string list" where
  "path_prefixes p = prefixes_from [] p"

text \<open>
  \<^verbatim>\<open>os.makedirs(name, exist_ok=True)\<close>: every missing directory on the way to \<open>name\<close> is
  created, an existing directory is accepted, and a regular file on the way or at
  \<open>name\<close> itself raises. A regular file at \<open>name\<close> makes \<^verbatim>\<open>mkdir(name)\<close> raise
  \<^verbatim>\<open>FileExistsError\<close> for \<open>name\<close>; a regular file on the way makes the \<^verbatim>\<open>mkdir\<close> of the
  next directory below it raise \<^verbatim>\<open>NotADirectoryError\<close> for that directory.
\<close>

fun mkdir_chain :: "filesystem \<Rightarrow> string list \<Rightarrow> error + filesystem" where
  "mkdir_chain fs [] = Inr fs"
| "mkdir_chain fs (d # ds) =
     (if isdir fs d then mkdir_chain fs ds
      else if isfile fs d
      then Inl (if ds = [] then FileExistsError d else NotADirectoryError (hd ds))
      else mkdir_chain (fs\<lparr>dirs := dirs fs @ [d]\<rparr>) ds)"

definition makedirs :: "filesystem \<Rightarrow> string \<Rightarrow> error + filesystem" where
  "makedirs fs name =
     (if name = [] then Inl (FileNotFoundError name) else mkdir_chain fs (path_prefixes name))"

text \<open>The update of an association list: the dictionary assignment \<open>d[k] = v\<close>.\<close>

fun update :: "'k \<Rightarrow> 'v \<Rightarrow> ('k \<times> 'v) list \<Rightarrow> ('k \<times> 'v) list" where
  "update k v [] = [(k, v)]"
| "update k v (kv # kvs) = (if fst kv = k then (k, v) # kvs else kv # update k v kvs)"

text \<open>
  \<^verbatim>\<open>with open(file_path, 'w', encoding='utf-8') as f: f.write(content)\<close>: the file is
  created, or truncated when it exists, and holds exactly the content; a directory at
  that path, or no directory to hold it, raises.
\<close>

definition write_file :: "filesystem \<Rightarrow> string \<Rightarrow> string \<Rightarrow> error + filesystem" where
  "write_file fs file_path content =
     (if isdir fs file_path then Inl (IsADirectoryError file_path)
      else if isfile fs (dirname file_path) then Inl (NotADirectoryError file_path)
      else if dirname file_path \<noteq> [] \<and> \<not> isdir fs (dirname file_path)
      then Inl (FileNotFoundError file_path)
      else Inr (fs\<lparr>files := update file_path content (files fs)\<rparr>))"

text \<open>\<open>p\<close> is the entry \<open>d\<close> or lies below it.\<close>

definition inside :: "string \<Rightarrow> string \<Rightarrow> bool" where
  "inside d p = (p = d \<or> take (Suc (length d)) p = d @ ''/'')"

text \<open>\<^verbatim>\<open>shutil.rmtree(d)\<close>: removes the directory and everything below it; raises on a regular file.\<close>

definition rmtree :: "filesystem \<Rightarrow> string \<Rightarrow> error + filesystem" where
  "rmtree fs d =
     (if isfile fs d then Inl (NotADirectoryError d)
      else if \<not> isdir fs d then Inl (FileNotFoundError d)
      else Inr \<lparr>dirs = filter (\<lambda>p. \<not> inside d p) (dirs fs),
                files = filter (\<lambda>(p, c). \<not> inside d p) (files fs)\<rparr>)"

subsection \<open>Decimal numerals\<close>

text \<open>\<^verbatim>\<open>str(n)\<close> for a natural number: its decimal digits, most significant first.\<close>

definition digit_char :: "nat \<Rightarrow> char" where
  "digit_char d = ''0123456789'' ! d"

function str :: "nat \<Rightarrow> string" where
  "str n = (if n < 10 then [digit_char n] else str (n div 10) @ [digit_char (n mod 10)])"
  by pat_completeness auto
termination
  by (relation "measure (\<lambda>n. n)") auto

declare str.simps [simp del]

lemma digit_char_inj: "d < 10 \<Longrightarrow> d' < 10 \<Longrightarrow> digit_char d = digit_char d' \<Longrightarrow> d = d'"
  by (auto simp: digit_char_def numeral_eq_Suc less_Suc_eq)

lemma str_nonempty: "str n \<noteq> []" "[] \<noteq> str n"
  by (subst str.simps, simp)+

lemma str_inj: "str m = str n \<Longrightarrow> m = n"
proof (induction m arbitrary: n rule: str.induct)
  case (1 m)
  show ?case
  proof (cases "m < 10")
    case small: True
    show ?thesis
    proof (cases "n < 10")
      case True
      with small "1.prems" show ?thesis
        by (simp add: str.simps [of m] str.simps [of n] digit_char_inj)
    next
      case False
      with small "1.prems" show ?thesis
        by (simp add: str.simps [of m] str.simps [of n] str_nonempty)
    qed
  next
    case big: False
    show ?thesis
    proof (cases "n < 10")
      case True
      with big "1.prems" show ?thesis
        by (simp add: str.simps [of m] str.simps [of n] str_nonempty)
    next
      case False
      with big "1.prems" have eq: "str (m div 10) = str (n div 10)"
        and d: "digit_char (m mod 10) = digit_char (n mod 10)"
        by (simp_all add: str.simps [of m] str.simps [of n])
      from "1.IH" [OF big eq] have "m div 10 = n div 10" .
      moreover from d have "m mod 10 = n mod 10"
        by (simp add: digit_char_inj)
      ultimately show ?thesis
        by (metis div_mult_mod_eq)
    qed
  qed
qed

text \<open>The f-string \<^verbatim>\<open>f"{base_path}_{counter}.lua"\<close>.\<close>

definition suffixed :: "string \<Rightarrow> nat \<Rightarrow> string" where
  "suffixed base_path counter = base_path @ ''_'' @ str counter @ ''.lua''"

lemma suffixed_inj: "suffixed b m = suffixed b n \<Longrightarrow> m = n"
  by (simp add: suffixed_def str_inj)

lemma finite_taken: "finite {k. path_exists fs (suffixed b k)}"
proof -
  have "{k. path_exists fs (suffixed b k)} = suffixed b -` (set (dirs fs) \<union> set (map fst (files fs)))"
    by (auto simp: path_exists_def isdir_def isfile_def)
  moreover have "inj (suffixed b)"
    by (rule injI) (rule suffixed_inj)
  ultimately show ?thesis
    by (simp add: finite_vimageI)
qed

text \<open>
  Lines 133--135: the search for the first counter whose suffixed name does not exist.
  It ends because the file system holds finitely many entries and distinct counters
  give distinct names.
\<close>

function first_free :: "filesystem \<Rightarrow> string \<Rightarrow> nat \<Rightarrow> nat" where
  "first_free fs base_path counter =
     (if path_exists fs (suffixed base_path counter)
      then first_free fs base_path (counter + 1) else counter)"
  by pat_completeness auto
termination
proof (relation "measure (\<lambda>(fs, b, c). card {k. c \<le> k \<and> path_exists fs (suffixed b k)})")
  show "wf (measure (\<lambda>(fs, b, c). card {k. c \<le> k \<and> path_exists fs (suffixed b k)}))"
    by simp
next
  fix fs :: filesystem and base_path :: string and counter :: nat
  assume taken: "path_exists fs (suffixed base_path counter)"
  let ?A = "\<lambda>c. {k. c \<le> k \<and> path_exists fs (suffixed base_path k)}"
  have fin: "finite (?A counter)"
    using finite_taken [of fs base_path] by (rule rev_finite_subset) auto
  have "?A (counter + 1) \<subseteq> ?A counter" by auto
  moreover have "counter \<in> ?A counter" using taken by simp
  moreover have "counter \<notin> ?A (counter + 1)" by simp
  ultimately have "?A (counter + 1) \<subset> ?A counter" by blast
  with fin have "card (?A (counter + 1)) < card (?A counter)"
    by (rule psubset_card_mono)
  then show "((fs, base_path, counter + 1), (fs, base_path, counter))
      \<in> measure (\<lambda>(fs, b, c). card {k. c \<le> k \<and> path_exists fs (suffixed b k)})"
    by simp
qed

declare first_free.simps [simp del]

subsection \<open>\<^verbatim>\<open>extract_scripts_with_structure\<close>\<close>

text \<open>Lines 68--75: the dictionary from a service to its target directory.\<close>

definition service_mapping :: "(string \<times> string) list" where
  "service_mapping =
     [(''ServerScriptService'', ''src/server''),
      (''ServerStorage'', ''src/server''),
      (''ReplicatedStorage'', ''src/shared''),
      (''StarterPlayer'', ''src/client''),
      (''StarterGui'', ''src/client''),
      (''Workspace'', ''src/workspace'')]"

definition script_classes :: "string list" where
  "script_classes = [''Script'', ''LocalScript'', ''ModuleScript'']"

text \<open>An entry of \<^verbatim>\<open>scripts_found\<close>; the fields are the keys of the dictionary.\<close>

record script_record =
  rec_name :: string
  rec_type :: "string option"
  rec_path :: string
  rec_service :: string
  rec_full_path :: string

text \<open>
  The variables the loop over the items updates: the file system, the list
  \<^verbatim>\<open>scripts_found\<close> and the set \<^verbatim>\<open>folder_structure\<close>.
\<close>

record state =
  fsys :: filesystem
  scripts_found :: "script_record list"
  folder_structure :: "string set"

text \<open>Lines 107--113: the special handling of the subfolders of \<^verbatim>\<open>StarterPlayer\<close>.\<close>

definition starter_player_rewrite :: "string \<Rightarrow> string list \<Rightarrow> string list" where
  "starter_player_rewrite service_name path_from_service =
     (if service_name = ''StarterPlayer'' \<and> length path_from_service > 0
      then (if path_from_service ! 0 = ''StarterPlayerScripts'' then drop 1 path_from_service
            else if path_from_service ! 0 = ''StarterCharacterScripts'' then path_from_service
            else path_from_service)
      else path_from_service)"

text \<open>
  Lines 115--128: the file path of a script, creating the folder of a script that lies
  in a subfolder structure.
\<close>

definition build_file_path ::
    "state \<Rightarrow> string \<Rightarrow> string list \<Rightarrow> string \<Rightarrow> error + (state \<times> string)" where
  "build_file_path st base_dir path_from_service item_name =
     (if length path_from_service > 0
      then (let folder_parts = map clean_name (butlast path_from_service)
            in if folder_parts \<noteq> []
               then (let folder_path = join base_dir folder_parts
                     in case makedirs (fsys st) folder_path of
                          Inl err \<Rightarrow> Inl err
                        | Inr fs' \<Rightarrow>
                            (let file_path =
                                   join folder_path [clean_name (last path_from_service) @ ''.lua'']
                             in Inr (st\<lparr>fsys := fs',
                                        folder_structure :=
                                          insert (dirname file_path) (folder_structure st)\<rparr>,
                                     file_path)))
               else Inr (st, join base_dir [clean_name (last path_from_service) @ ''.lua'']))
      else Inr (st, join base_dir [clean_name item_name @ ''.lua'']))"

text \<open>Lines 130--136: the handling of duplicate file names.\<close>

definition unique_path :: "filesystem \<Rightarrow> string \<Rightarrow> string" where
  "unique_path fs file_path =
     (if path_exists fs file_path
      then (let base_path = take (length file_path - 4) file_path;
                counter = first_free fs base_path 1
            in suffixed base_path counter)
      else file_path)"

text \<open>Lines 104--152: a script with a source text.\<close>

definition handle_script ::
    "state \<Rightarrow> string \<Rightarrow> string \<Rightarrow> string list \<Rightarrow> string \<Rightarrow> string option \<Rightarrow> string
      \<Rightarrow> error + state" where
  "handle_script st base_dir service_name path_from_service0 item_name item_class source =
     (let path_from_service = starter_player_rewrite service_name path_from_service0
      in case build_file_path st base_dir path_from_service item_name of
           Inl err \<Rightarrow> Inl err
         | Inr (st1, file_path0) \<Rightarrow>
             (let file_path = unique_path (fsys st1) file_path0
              in case makedirs (fsys st1) (dirname file_path) of
                   Inl err \<Rightarrow> Inl err
                 | Inr fs2 \<Rightarrow>
                     (case write_file fs2 file_path source of
                        Inl err \<Rightarrow> Inl err
                      | Inr fs3 \<Rightarrow>
                          Inr (st1\<lparr>fsys := fs3,
                                   scripts_found := scripts_found st1 @
                                     [\<lparr>rec_name = item_name, rec_type = item_class,
                                       rec_path = file_path, rec_service = service_name,
                                       rec_full_path =
                                         str_join ''/'' (service_name # path_from_service)\<rparr>]\<rparr>))))"

text \<open>Lines 155--159: a folder.\<close>

definition handle_folder :: "state \<Rightarrow> string \<Rightarrow> string list \<Rightarrow> error + state" where
  "handle_folder st base_dir path_from_service =
     (if length path_from_service > 0
      then (let folder_path = join base_dir (map clean_name path_from_service)
            in case makedirs (fsys st) folder_path of
                 Inl err \<Rightarrow> Inl err
               | Inr fs' \<Rightarrow>
                   Inr (st\<lparr>fsys := fs',
                           folder_structure := insert folder_path (folder_structure st)\<rparr>))
      else Inr st)"

text \<open>
  Lines 85--159: the body of the loop for one item. \<open>Some (Inr st)\<close> with the state
  unchanged is \<^verbatim>\<open>continue\<close>; \<open>Some (Inl err)\<close> is an uncaught exception; \<open>None\<close> is a
  call of \<^verbatim>\<open>find_parent_service\<close> that does not return.
\<close>

definition process_item :: "element \<Rightarrow> state \<Rightarrow> node \<Rightarrow> (error + state) option" where
  "process_item root st item =
     (let item_class = get (snd item) ''class''
      in case name_text (snd item) of
           None \<Rightarrow> Some (Inr st)
         | Some item_name \<Rightarrow>
             (case find_parent_service item root of
                None \<Rightarrow> None
              | Some (service_name_opt, path_from_service) \<Rightarrow>
                  (case service_name_opt of
                     None \<Rightarrow> Some (Inr st)
                   | Some service_name \<Rightarrow>
                       if service_name = [] then Some (Inr st)
                       else (case map_of service_mapping service_name of
                               None \<Rightarrow> Some (Inr st)
                             | Some base_dir \<Rightarrow>
                                 if item_class \<in> Some ` set script_classes
                                 then (case source_text (snd item) of
                                         None \<Rightarrow> Some (Inr st)
                                       | Some source \<Rightarrow>
                                           Some (handle_script st base_dir service_name
                                                   path_from_service item_name item_class source))
                                 else if item_class = Some ''Folder''
                                 then Some (handle_folder st base_dir path_from_service)
                                 else Some (Inr st)))))"

text \<open>Line 84: the loop, which an exception leaves.\<close>

fun process_items :: "element \<Rightarrow> state \<Rightarrow> node list \<Rightarrow> (error + state) option" where
  "process_items root st [] = Some (Inr st)"
| "process_items root st (item # items) =
     (case process_item root st item of
        None \<Rightarrow> None
      | Some (Inl err) \<Rightarrow> Some (Inl err)
      | Some (Inr st') \<Rightarrow> process_items root st' items)"

text \<open>Lines 53--62: the old output is removed and the base directories are created.\<close>

definition prepare_output :: "filesystem \<Rightarrow> error + filesystem" where
  "prepare_output fs0 =
     (case (if path_exists fs0 ''src'' then rmtree fs0 ''src'' else Inr fs0) of
        Inl err \<Rightarrow> Inl err
      | Inr fs1 \<Rightarrow>
          (case makedirs fs1 ''src/server'' of
             Inl err \<Rightarrow> Inl err
           | Inr fs2 \<Rightarrow>
               (case makedirs fs2 ''src/client'' of
                  Inl err \<Rightarrow> Inl err
                | Inr fs3 \<Rightarrow> makedirs fs3 ''src/shared'')))"

text \<open>
  Lines 45--159, from the parsed tree on: the file system before the run and the root
  of the tree give the state after the loop. The dictionary of lines 77--81 is built
  and never read. The console output that follows (lines 161--213) changes nothing.
\<close>

definition extract_scripts_with_structure ::
    "filesystem \<Rightarrow> element \<Rightarrow> (error + state) option" where
  "extract_scripts_with_structure fs0 root =
     (case prepare_output fs0 of
        Inl err \<Rightarrow> Some (Inl err)
      | Inr fs1 \<Rightarrow>
          (let parent_map = build_parent_map root
           in process_items root \<lparr>fsys = fs1, scripts_found = [], folder_structure = {}\<rparr>
                (iter_tag root ''Item'')))"

text \<open>
  Lines 163--171 and 175: the numbers the summary prints, the total and the number of
  scripts of each service.
\<close>

definition total_scripts :: "state \<Rightarrow> nat" where
  "total_scripts st = length (scripts_found st)"

definition by_service :: "state \<Rightarrow> string \<Rightarrow> string list" where
  "by_service st service_name =
     map rec_full_path (filter (\<lambda>script. rec_service script = service_name) (scripts_found st))"

subsection \<open>Notions used to state the properties\<close>

text \<open>The element at a position of the tree, when the position is one.\<close>

fun elem_at :: "element \<Rightarrow> position \<Rightarrow> element option" where
  "elem_at e [] = Some e"
| "elem_at e (i # p) = (if i < length (children e) then elem_at (children e ! i) p else None)"

text \<open>
  The elements on the way from the root (excluded) down to the element at a position
  (included), outermost first.
\<close>

fun below_root :: "element \<Rightarrow> position \<Rightarrow> element list" where
  "below_root e [] = []"
| "below_root e (i # p) =
     (if i < length (children e) then children e ! i # below_root (children e ! i) p else [])"

text \<open>
  The name the walk collects at an element: the element is an \<^verbatim>\<open>Item\<close> and has a
  non-empty \<^verbatim>\<open>Name\<close>.
\<close>

definition item_name :: "element \<Rightarrow> string option" where
  "item_name e = (if tag e = ''Item'' then name_text e else None)"

text \<open>The collected names of a list of elements, in the order of the list.\<close>

definition item_names :: "element list \<Rightarrow> string list" where
  "item_names es = List.map_filter item_name es"

definition service_named :: "element \<Rightarrow> bool" where
  "service_named e = (case item_name e of None \<Rightarrow> False | Some n \<Rightarrow> n \<in> set service_names)"

text \<open>
  The service of the nearest element named after a service, in a list of elements
  ordered outermost first.
\<close>

definition nearest_service :: "element list \<Rightarrow> string option" where
  "nearest_service es =
     (case dropWhile (\<lambda>e. \<not> service_named e) (rev es) of
        [] \<Rightarrow> None
      | s # _ \<Rightarrow> item_name s)"

text \<open>
  The assignments \<^verbatim>\<open>parent_map[child] = parent\<close> that one pass over the tree executes,
  in the order of execution.
\<close>

definition parent_edges :: "element \<Rightarrow> (position \<times> node) list" where
  "parent_edges root =
     concat (map (\<lambda>parent. map (\<lambda>child. (fst child, parent)) (child_nodes parent)) (iter root))"

text \<open>
  The upward walk as a recursion over the elements it visits, from the start element
  to the child of the root.
\<close>

fun resolve :: "element list \<Rightarrow> string list \<Rightarrow> string option \<times> string list" where
  "resolve [] path = (None, [])"
| "resolve (e # es) path =
     (case item_name e of
        Some n \<Rightarrow> if n \<in> set service_names then (Some n, rev (butlast (path @ [n])))
                  else resolve es (path @ [n])
      | None \<Rightarrow> resolve es path)"

text \<open>
  The resolution as the specification words it: the service of the nearest element
  named after a service, with the names collected strictly between that element and
  the node, the node itself excluded.
\<close>

definition spec_resolution :: "element \<Rightarrow> position \<Rightarrow> string option \<times> string list" where
  "spec_resolution root p =
     (let chain = below_root root p;
          inner = rev (takeWhile (\<lambda>e. \<not> service_named e) (rev chain))
      in case nearest_service chain of
           None \<Rightarrow> (None, [])
         | Some n \<Rightarrow> (Some n, item_names (butlast inner)))"

subsection \<open>Example trees\<close>

text \<open>A property element \<^verbatim>\<open><t name="n">v</t>\<close>.\<close>

definition mk_property :: "string \<Rightarrow> string \<Rightarrow> string \<Rightarrow> element" where
  "mk_property t n v = Element t [(''name'', n)] (Some v) []"

text \<open>An \<^verbatim>\<open>Item\<close> of a class with a name, further properties and child items.\<close>

definition mk_item :: "string \<Rightarrow> string \<Rightarrow> element list \<Rightarrow> element list \<Rightarrow> element" where
  "mk_item cls nm props cs =
     Element ''Item'' [(''class'', cls)] None
       (Element ''Properties'' [] None (mk_property ''string'' ''Name'' nm # props) # cs)"

text \<open>A script item with a source text.\<close>

definition mk_script :: "string \<Rightarrow> string \<Rightarrow> string \<Rightarrow> element list \<Rightarrow> element" where
  "mk_script cls nm src cs = mk_item cls nm [mk_property ''ProtectedString'' ''Source'' src] cs"

text \<open>The root element of a place file.\<close>

definition roblox :: "element list \<Rightarrow> element" where
  "roblox cs = Element ''roblox'' [(''version'', ''4'')] None cs"

definition empty_fs :: filesystem where
  "empty_fs = \<lparr>dirs = [], files = []\<rparr>"

text \<open>
  \<^verbatim>\<open>StarterPlayer/StarterPlayerScripts/Move\<close>, a \<^verbatim>\<open>LocalScript\<close>. The first child of an
  item is its \<^verbatim>\<open>Properties\<close> element, so the script is at position \<open>[0, 1, 1]\<close>.
\<close>

definition move_script :: element where
  "move_script = mk_script ''LocalScript'' ''Move'' ''print(1)'' []"

definition move_folder :: element where
  "move_folder = mk_item ''StarterPlayerScripts'' ''StarterPlayerScripts'' [] [move_script]"

definition move_service :: element where
  "move_service = mk_item ''StarterPlayer'' ''StarterPlayer'' [] [move_folder]"

definition move_tree :: element where
  "move_tree = roblox [move_service]"

text \<open>\<^verbatim>\<open>StarterPlayer/StarterCharacterScripts/Init\<close>, a \<^verbatim>\<open>Script\<close>.\<close>

definition init_tree :: element where
  "init_tree =
     roblox [mk_item ''StarterPlayer'' ''StarterPlayer'' []
               [mk_item ''StarterCharacterScripts'' ''StarterCharacterScripts'' []
                  [mk_script ''Script'' ''Init'' ''x = 1'' []]]]"

text \<open>
  A folder named \<^verbatim>\<open>ReplicatedStorage\<close> inside \<^verbatim>\<open>Workspace\<close>, holding a module script.
\<close>

definition nested_script :: element where
  "nested_script = mk_script ''ModuleScript'' ''A'' ''return 1'' []"

definition nested_folder :: element where
  "nested_folder = mk_item ''Folder'' ''ReplicatedStorage'' [] [nested_script]"

definition nested_tree :: element where
  "nested_tree = roblox [mk_item ''Workspace'' ''Workspace'' [] [nested_folder]]"

text \<open>
  Three items that the loop passes over: a script without a \<^verbatim>\<open>Name\<close>, a script under
  no service, and a script under \<^verbatim>\<open>ReplicatedStorage\<close> whose \<^verbatim>\<open>Source\<close> is empty.
\<close>

definition unnamed_script :: element where
  "unnamed_script =
     Element ''Item'' [(''class'', ''Script'')] None
       [Element ''Properties'' [] None [mk_property ''ProtectedString'' ''Source'' ''print(2)'']]"

definition orphan_script :: element where
  "orphan_script = mk_script ''Script'' ''Orphan'' ''print(3)'' []"

definition empty_script :: element where
  "empty_script =
     mk_item ''Script'' ''Empty'' [Element ''ProtectedString'' [(''name'', ''Source'')] None []] []"

definition gaps_tree :: element where
  "gaps_tree =
     roblox [unnamed_script, orphan_script,
             mk_item ''ReplicatedStorage'' ''ReplicatedStorage'' [] [empty_script]]"

text \<open>The state in which the loop starts on an empty disk.\<close>

definition start_state :: state where
  "start_state =
     \<lparr>fsys = \<lparr>dirs = [''src'', ''src/server'', ''src/client'', ''src/shared''], files = []\<rparr>,
      scripts_found = [], folder_structure = {}\<rparr>"

subsection \<open>Counting the construction of the parent dictionary\<close>

text \<open>
  The number of assignments \<^verbatim>\<open>parent_map[child] = parent\<close> (line 26) that one call of
  \<^verbatim>\<open>find_parent_service\<close> executes: lines 23--26 run in full in every call.
\<close>

definition find_parent_service_assignments :: "node \<Rightarrow> element \<Rightarrow> nat" where
  "find_parent_service_assignments element root = length (parent_edges root)"

text \<open>
  The assignments of line 26 during the loop over the items: line 94 calls
  \<^verbatim>\<open>find_parent_service\<close> for every item that has a name, until the loop ends or an
  exception leaves it.
\<close>

fun process_items_assignments :: "element \<Rightarrow> state \<Rightarrow> node list \<Rightarrow> nat" where
  "process_items_assignments root st [] = 0"
| "process_items_assignments root st (item # items) =
     (case name_text (snd item) of
        None \<Rightarrow> 0
      | Some _ \<Rightarrow> find_parent_service_assignments item root)
     + (case process_item root st item of
          Some (Inr st') \<Rightarrow> process_items_assignments root st' items
        | _ \<Rightarrow> 0)"

text \<open>
  The assignments of lines 26 and 81 during a whole run: the pass of lines 78--81,
  whose dictionary is never read, and the passes of the calls.
\<close>

definition extract_assignments :: "filesystem \<Rightarrow> element \<Rightarrow> nat" where
  "extract_assignments fs0 root =
     (case prepare_output fs0 of
        Inl err \<Rightarrow> 0
      | Inr fs1 \<Rightarrow>
          length (parent_edges root)
          + process_items_assignments root
              \<lparr>fsys = fs1, scripts_found = [], folder_structure = {}\<rparr> (iter_tag root ''Item''))"

text \<open>The items for which line 94 is reached: those with a non-empty name.\<close>

definition named_items :: "element \<Rightarrow> node list" where
  "named_items root = filter (\<lambda>item. name_text (snd item) \<noteq> None) (iter_tag root ''Item'')"

text \<open>The run returns normally: it neither raises nor fails to return.\<close>

definition completes :: "filesystem \<Rightarrow> element \<Rightarrow> bool" where
  "completes fs0 root =
     (case extract_scripts_with_structure fs0 root of Some (Inr st) \<Rightarrow> True | _ \<Rightarrow> False)"

text \<open>
  The items for which the loop reaches line 105: a non-empty name, a service found by
  \<^verbatim>\<open>find_parent_service\<close>, a script class and a non-empty source text.
\<close>

definition is_written_script :: "element \<Rightarrow> node \<Rightarrow> bool" where
  "is_written_script root item =
     (name_text (snd item) \<noteq> None
      \<and> (case find_parent_service item root of Some (Some s, pth) \<Rightarrow> True | _ \<Rightarrow> False)
      \<and> get (snd item) ''class'' \<in> Some ` set script_classes
      \<and> source_text (snd item) \<noteq> None)"

definition script_nodes :: "element \<Rightarrow> node list" where
  "script_nodes root = filter (is_written_script root) (iter_tag root ''Item'')"

text \<open>The source text and the name of an item, empty when it has none.\<close>

definition source_of :: "node \<Rightarrow> string" where
  "source_of item = (case source_text (snd item) of None \<Rightarrow> [] | Some source \<Rightarrow> source)"

definition name_of :: "node \<Rightarrow> string" where
  "name_of item = (case name_text (snd item) of None \<Rightarrow> [] | Some n \<Rightarrow> n)"


text \<open>
  A script directly under \<^verbatim>\<open>ServerScriptService\<close> and a module script in a folder
  below it.
\<close>

definition main_script :: element where
  "main_script = mk_script ''Script'' ''Main'' ''print(0)'' []"

definition util_script :: element where
  "util_script = mk_script ''ModuleScript'' ''Util'' ''return {}'' []"

definition sample_tree :: element where
  "sample_tree =
     roblox [mk_item ''ServerScriptService'' ''ServerScriptService'' []
               [main_script, mk_item ''Folder'' ''Lib'' [] [util_script]]]"

text \<open>Three module scripts named \<^verbatim>\<open>Utils\<close> directly under \<^verbatim>\<open>ReplicatedStorage\<close>.\<close>

definition utils_tree :: element where
  "utils_tree =
     roblox [mk_item ''ReplicatedStorage'' ''ReplicatedStorage'' []
               [mk_script ''ModuleScript'' ''Utils'' ''return 1'' [],
                mk_script ''ModuleScript'' ''Utils'' ''return 2'' [],
                mk_script ''ModuleScript'' ''Utils'' ''return 3'' []]]"

text \<open>
  Module scripts named \<^verbatim>\<open>X\<close>, \<^verbatim>\<open>X_1\<close> and \<^verbatim>\<open>X\<close>, in this order, directly under
  \<^verbatim>\<open>ReplicatedStorage\<close>.
\<close>

definition first_x :: element where
  "first_x = mk_script ''ModuleScript'' ''X'' ''a'' []"

definition named_x_1 :: element where
  "named_x_1 = mk_script ''ModuleScript'' ''X_1'' ''b'' []"

definition second_x :: element where
  "second_x = mk_script ''ModuleScript'' ''X'' ''c'' []"

definition collide_tree :: element where
  "collide_tree =
     roblox [mk_item ''ReplicatedStorage'' ''ReplicatedStorage'' [] [first_x, named_x_1, second_x]]"

text \<open>The states in which the runs on the example trees end, on an empty disk.\<close>

definition sample_result :: state where
  "sample_result =
     \<lparr>fsys =
        \<lparr>dirs = [''src'', ''src/server'', ''src/client'', ''src/shared'', ''src/server/Lib''],
         files = [(''src/server/Main.lua'', ''print(0)''),
                  (''src/server/Lib/Util.lua'', ''return {}'')]\<rparr>,
      scripts_found =
        [\<lparr>rec_name = ''Main'', rec_type = Some ''Script'', rec_path = ''src/server/Main.lua'',
          rec_service = ''ServerScriptService'', rec_full_path = ''ServerScriptService/Main''\<rparr>,
         \<lparr>rec_name = ''Util'', rec_type = Some ''ModuleScript'',
          rec_path = ''src/server/Lib/Util.lua'', rec_service = ''ServerScriptService'',
          rec_full_path = ''ServerScriptService/Lib/Util''\<rparr>],
      folder_structure = {''src/server/Lib''}\<rparr>"

definition utils_result :: state where
  "utils_result =
     \<lparr>fsys =
        \<lparr>dirs = [''src'', ''src/server'', ''src/client'', ''src/shared''],
         files = [(''src/shared/Utils.lua'', ''return 1''),
                  (''src/shared/Utils_1.lua'', ''return 2''),
                  (''src/shared/Utils_2.lua'', ''return 3'')]\<rparr>,
      scripts_found =
        [\<lparr>rec_name = ''Utils'', rec_type = Some ''ModuleScript'',
          rec_path = ''src/shared/Utils.lua'', rec_service = ''ReplicatedStorage'',
          rec_full_path = ''ReplicatedStorage/Utils''\<rparr>,
         \<lparr>rec_name = ''Utils'', rec_type = Some ''ModuleScript'',
          rec_path = ''src/shared/Utils_1.lua'', rec_service = ''ReplicatedStorage'',
          rec_full_path = ''ReplicatedStorage/Utils''\<rparr>,
         \<lparr>rec_name = ''Utils'', rec_type = Some ''ModuleScript'',
          rec_path = ''src/shared/Utils_2.lua'', rec_service = ''ReplicatedStorage'',
          rec_full_path = ''ReplicatedStorage/Utils''\<rparr>],
      folder_structure = {}\<rparr>"

definition collide_result :: state where
  "collide_result =
     \<lparr>fsys =
        \<lparr>dirs = [''src'', ''src/server'', ''src/client'', ''src/shared''],
         files = [(''src/shared/X.lua'', ''a''),
                  (''src/shared/X_1.lua'', ''b''),
                  (''src/shared/X_2.lua'', ''c'')]\<rparr>,
      scripts_found =
        [\<lparr>rec_name = ''X'', rec_type = Some ''ModuleScript'', rec_path = ''src/shared/X.lua'',
          rec_service = ''ReplicatedStorage'', rec_full_path = ''ReplicatedStorage/X''\<rparr>,
         \<lparr>rec_name = ''X_1'', rec_type = Some ''ModuleScript'', rec_path = ''src/shared/X_1.lua'',
          rec_service = ''ReplicatedStorage'', rec_full_path = ''ReplicatedStorage/X_1''\<rparr>,
         \<lparr>rec_name = ''X'', rec_type = Some ''ModuleScript'', rec_path = ''src/shared/X_2.lua'',
          rec_service = ''ReplicatedStorage'', rec_full_path = ''ReplicatedStorage/X''\<rparr>],
      folder_structure = {}\<rparr>"

subsection \<open>Notions used to state the properties of the directories\<close>

text \<open>A directory path the program builds: not empty and not ending with a slash.\<close>

definition good_dir :: "string \<Rightarrow> bool" where
  "good_dir a = (a \<noteq> [] \<and> last a \<noteq> CHR ''/'')"

text \<open>A path component: not empty and without a slash.\<close>

definition segment :: "string \<Rightarrow> bool" where
  "segment c = (c \<noteq> [] \<and> CHR ''/'' \<notin> set c)"

text \<open>
  The directory the loop creates for an item: for a script that is written (lines 121
  and 139), the directory of its file, built from the rewritten path without its last
  segment; for a folder with a non-empty path (line 158), the directory built from the
  whole path as \<^verbatim>\<open>find_parent_service\<close> returns it, to which lines 107--113 are not
  applied; for any other item, none.
\<close>

definition item_target :: "element \<Rightarrow> node \<Rightarrow> string option" where
  "item_target root item =
     (case name_text (snd item) of
        None \<Rightarrow> None
      | Some nm \<Rightarrow>
          (case find_parent_service item root of
             Some (Some s, pfs) \<Rightarrow>
               (case map_of service_mapping s of
                  None \<Rightarrow> None
                | Some base_dir \<Rightarrow>
                    if get (snd item) ''class'' \<in> Some ` set script_classes
                    then (if source_text (snd item) = None then None
                          else Some (join base_dir
                                 (map clean_name (butlast (starter_player_rewrite s pfs)))))
                    else if get (snd item) ''class'' = Some ''Folder'' \<and> pfs \<noteq> []
                    then Some (join base_dir (map clean_name pfs))
                    else None)
           | _ \<Rightarrow> None))"

definition demanded_dirs :: "element \<Rightarrow> string list" where
  "demanded_dirs root = List.map_filter (item_target root) (iter_tag root ''Item'')"

text \<open>The base directories.\<close>

definition base_dirs :: "string list" where
  "base_dirs = [''src/server'', ''src/client'', ''src/shared'', ''src/workspace'']"

text \<open>A first-level entry of the output directory: \<^verbatim>\<open>src/\<close> and one component.\<close>

definition first_level :: "string \<Rightarrow> bool" where
  "first_level d = (take 4 d = ''src/'' \<and> segment (drop 4 d))"

text \<open>
  No item of the tree is named \<^verbatim>\<open>.\<close> or \<^verbatim>\<open>..\<close>. As a path component such a name
  stands for another directory, whereas the file system above takes every path string
  as the name of an entry of its own: the layout of the directories is stated for
  trees without such names.
\<close>

definition plain_names :: "element \<Rightarrow> bool" where
  "plain_names root =
     list_all (\<lambda>item. item_name (snd item) \<noteq> Some ''.'' \<and> item_name (snd item) \<noteq> Some ''..'')
       (iter root)"

text \<open>
  The disk before the run is one where an entry below \<^verbatim>\<open>src\<close> is only found when
  \<^verbatim>\<open>src\<close> exists.
\<close>

definition src_consistent :: "filesystem \<Rightarrow> bool" where
  "src_consistent fs0 =
     (path_exists fs0 ''src''
      \<or> (list_all (\<lambda>d. \<not> inside ''src'' d) (dirs fs0)
          \<and> list_all (\<lambda>f. \<not> inside ''src'' (fst f)) (files fs0)))"

text \<open>
  A module script \<^verbatim>\<open>A\<close> followed by a folder named \<^verbatim>\<open>A.lua\<close>, both directly under
  \<^verbatim>\<open>ReplicatedStorage\<close>: the folder needs a directory where the file of the script is.
\<close>

definition conflict_tree :: element where
  "conflict_tree =
     roblox [mk_item ''ReplicatedStorage'' ''ReplicatedStorage'' []
               [mk_script ''ModuleScript'' ''A'' ''return 0'' [], mk_item ''Folder'' ''A.lua'' [] []]]"

text \<open>A script directly under \<^verbatim>\<open>Workspace\<close>.\<close>

definition spin_script :: element where
  "spin_script = mk_script ''Script'' ''Spin'' ''while true do end'' []"

definition workspace_tree :: element where
  "workspace_tree = roblox [mk_item ''Workspace'' ''Workspace'' [] [spin_script]]"

definition workspace_result :: state where
  "workspace_result =
     \<lparr>fsys =
        \<lparr>dirs = [''src'', ''src/server'', ''src/client'', ''src/shared'', ''src/workspace''],
         files = [(''src/workspace/Spin.lua'', ''while true do end'')]\<rparr>,
      scripts_found =
        [\<lparr>rec_name = ''Spin'', rec_type = Some ''Script'', rec_path = ''src/workspace/Spin.lua'',
          rec_service = ''Workspace'', rec_full_path = ''Workspace/Spin''\<rparr>],
      folder_structure = {}\<rparr>"

text \<open>
  Two folders named \<^verbatim>\<open>F\<close> side by side under \<^verbatim>\<open>ReplicatedStorage\<close>, each holding one
  module script.
\<close>

definition first_twin :: element where
  "first_twin = mk_item ''Folder'' ''F'' [] [mk_script ''ModuleScript'' ''A'' ''return 1'' []]"

definition second_twin :: element where
  "second_twin = mk_item ''Folder'' ''F'' [] [mk_script ''ModuleScript'' ''B'' ''return 2'' []]"

definition twins_tree :: element where
  "twins_tree =
     roblox [mk_item ''ReplicatedStorage'' ''ReplicatedStorage'' [] [first_twin, second_twin]]"

definition twins_result :: state where
  "twins_result =
     \<lparr>fsys =
        \<lparr>dirs = [''src'', ''src/server'', ''src/client'', ''src/shared'', ''src/shared/F''],
         files = [(''src/shared/F/A.lua'', ''return 1''), (''src/shared/F/B.lua'', ''return 2'')]\<rparr>,
      scripts_found =
        [\<lparr>rec_name = ''A'', rec_type = Some ''ModuleScript'', rec_path = ''src/shared/F/A.lua'',
          rec_service = ''ReplicatedStorage'', rec_full_path = ''ReplicatedStorage/F/A''\<rparr>,
         \<lparr>rec_name = ''B'', rec_type = Some ''ModuleScript'', rec_path = ''src/shared/F/B.lua'',
          rec_service = ''ReplicatedStorage'', rec_full_path = ''ReplicatedStorage/F/B''\<rparr>],
      folder_structure = {''src/shared/F''}\<rparr>"

text \<open>
  A document whose root element is itself an item named after a service, holding one
  script.
\<close>

definition inner_script :: element where
  "inner_script = mk_script ''Script'' ''S'' ''print(4)'' []"

definition root_service_tree :: element where
  "root_service_tree = mk_item ''Workspace'' ''Workspace'' [] [inner_script]"

text \<open>
  \<^verbatim>\<open>StarterPlayer/StarterPlayerScripts/Ctl/Move\<close>: the \<^verbatim>\<open>LocalScript\<close> \<^verbatim>\<open>Move\<close> in a folder
  \<^verbatim>\<open>Ctl\<close> below \<^verbatim>\<open>StarterPlayerScripts\<close>.
\<close>

definition ctl_tree :: element where
  "ctl_tree =
     roblox [mk_item ''StarterPlayer'' ''StarterPlayer'' []
               [mk_item ''StarterPlayerScripts'' ''StarterPlayerScripts'' []
                  [mk_item ''Folder'' ''Ctl'' [] [move_script]]]]"

definition ctl_result :: state where
  "ctl_result =
     \<lparr>fsys =
        \<lparr>dirs = [''src'', ''src/server'', ''src/client'', ''src/shared'',
                 ''src/client/StarterPlayerScripts'', ''src/client/StarterPlayerScripts/Ctl'',
                 ''src/client/Ctl''],
         files = [(''src/client/Ctl/Move.lua'', ''print(1)'')]\<rparr>,
      scripts_found =
        [\<lparr>rec_name = ''Move'', rec_type = Some ''LocalScript'',
          rec_path = ''src/client/Ctl/Move.lua'', rec_service = ''StarterPlayer'',
          rec_full_path = ''StarterPlayer/Ctl/Move''\<rparr>],
      folder_structure = {''src/client/StarterPlayerScripts/Ctl'', ''src/client/Ctl''}\<rparr>"

subsection \<open>Notions used to state where the directories of a run come from\<close>

text \<open>
  The directory of the file of a script that is written: the base directory of its
  service and the cleaned names of its rewritten path without the last segment, which
  names the file.
\<close>

definition script_dir :: "element \<Rightarrow> node \<Rightarrow> string option" where
  "script_dir root item =
     (if is_written_script root item
      then (case find_parent_service item root of
              Some (Some s, pfs) \<Rightarrow>
                (case map_of service_mapping s of
                   None \<Rightarrow> None
                 | Some base_dir \<Rightarrow>
                     Some (join base_dir
                             (map clean_name (butlast (starter_player_rewrite s pfs)))))
            | _ \<Rightarrow> None)
      else None)"

text \<open>
  An item for which the loop reaches line 156: it has a non-empty name and a service,
  its class is \<^verbatim>\<open>Folder\<close>, and its path below the service is not empty. The result is
  the service, the base directory and that path.
\<close>

definition folder_path :: "element \<Rightarrow> node \<Rightarrow> (string \<times> string \<times> string list) option" where
  "folder_path root item =
     (case name_text (snd item) of
        None \<Rightarrow> None
      | Some nm \<Rightarrow>
          (case find_parent_service item root of
             Some (Some s, pfs) \<Rightarrow>
               (case map_of service_mapping s of
                  None \<Rightarrow> None
                | Some base_dir \<Rightarrow>
                    if get (snd item) ''class'' = Some ''Folder'' \<and> pfs \<noteq> []
                    then Some (s, base_dir, pfs) else None)
           | _ \<Rightarrow> None))"

text \<open>
  The directory of a folder whose path the rewriting of lines 107--113 leaves as it
  is: the base directory of its service and the cleaned names of its path. For a
  folder below \<^verbatim>\<open>StarterPlayer/StarterPlayerScripts\<close>, whose path the rewriting would
  shorten, no directory is named here.
\<close>

definition folder_dir :: "element \<Rightarrow> node \<Rightarrow> string option" where
  "folder_dir root item =
     (case folder_path root item of
        None \<Rightarrow> None
      | Some (s, base_dir, pfs) \<Rightarrow>
          if starter_player_rewrite s pfs = pfs then Some (join base_dir (map clean_name pfs))
          else None)"

text \<open>
  For a folder below \<^verbatim>\<open>StarterPlayer/StarterPlayerScripts\<close>: the directory of its path
  as it is and the directory of its rewritten path. The properties below leave open
  which of the two the folder gets.
\<close>

definition marker_folder_dirs :: "element \<Rightarrow> node \<Rightarrow> string list" where
  "marker_folder_dirs root item =
     (case folder_path root item of
        None \<Rightarrow> []
      | Some (s, base_dir, pfs) \<Rightarrow>
          if starter_player_rewrite s pfs = pfs then []
          else [join base_dir (map clean_name pfs),
                join base_dir (map clean_name (starter_player_rewrite s pfs))])"

text \<open>
  The directories the written scripts and the folders of the tree need, in the order
  of the traversal, and the directories left open.
\<close>

definition needed_dir :: "element \<Rightarrow> node \<Rightarrow> string option" where
  "needed_dir root item =
     (case script_dir root item of Some d \<Rightarrow> Some d | None \<Rightarrow> folder_dir root item)"

definition needed_dirs :: "element \<Rightarrow> string list" where
  "needed_dirs root = List.map_filter (needed_dir root) (iter_tag root ''Item'')"

definition open_dirs :: "element \<Rightarrow> string list" where
  "open_dirs root = concat (map (marker_folder_dirs root) (iter_tag root ''Item''))"

subsection \<open>Properties of \<^verbatim>\<open>clean_name\<close>\<close>

lemma clean_name_map:
  "clean_name s = map (\<lambda>c. if c \<in> set invalid_chars then CHR ''_'' else c) s"
  by (induction s) simp_all

lemma length_clean_name [simp]: "length (clean_name s) = length s"
  by (simp add: clean_name_map)

lemma clean_name_idem: "clean_name (clean_name s) = clean_name s"
  by (induction s) (simp_all add: invalid_chars_def)

text \<open>
  Claim C5. \<^verbatim>\<open>clean_name\<close> is total and idempotent: the result has the length of the
  input; at every index, a character among \<^verbatim>\<open>< > : " / \ | ? *\<close> has become an
  underscore and any other character (so every byte of a non-ASCII character) is
  unchanged; and cleaning a cleaned name changes nothing.
\<close>

theorem clean_name_total_idempotent:
  "set invalid_chars =
     {CHR ''<'', CHR ''>'', CHR '':'', CHR 0x22, CHR ''/'', CHR 0x5C, CHR ''|'', CHR ''?'', CHR ''*''}
   \<and> length (clean_name s) = length s
   \<and> (\<forall>i < length s.
         (s ! i \<in> set invalid_chars \<longrightarrow> clean_name s ! i = CHR ''_'')
       \<and> (s ! i \<notin> set invalid_chars \<longrightarrow> clean_name s ! i = s ! i))
   \<and> clean_name (clean_name s) = clean_name s"
proof -
  have chars: "set invalid_chars =
     {CHR ''<'', CHR ''>'', CHR '':'', CHR 0x22, CHR ''/'', CHR 0x5C, CHR ''|'', CHR ''?'', CHR ''*''}"
    by (simp add: invalid_chars_def)
  have pointwise: "\<forall>i < length s.
         (s ! i \<in> set invalid_chars \<longrightarrow> clean_name s ! i = CHR ''_'')
       \<and> (s ! i \<notin> set invalid_chars \<longrightarrow> clean_name s ! i = s ! i)"
    by (simp add: clean_name_map)
  from chars pointwise show ?thesis
    by (simp only: length_clean_name clean_name_idem simp_thms)
qed

text \<open>
  The theorem at the name \<^verbatim>\<open>a:\<close> followed by the two bytes of a non-ASCII character and
  a backslash: index 1 holds a replaced character, index 2 a byte that is kept.
\<close>

theorem clean_name_total_idempotent_witness:
  "(1::nat) < length [CHR ''a'', CHR '':'', CHR 0xC3, CHR 0xA9, CHR 0x5C]
   \<and> (2::nat) < length [CHR ''a'', CHR '':'', CHR 0xC3, CHR 0xA9, CHR 0x5C]
   \<and> [CHR ''a'', CHR '':'', CHR 0xC3, CHR 0xA9, CHR 0x5C] ! 1 \<in> set invalid_chars
   \<and> [CHR ''a'', CHR '':'', CHR 0xC3, CHR 0xA9, CHR 0x5C] ! 2 \<notin> set invalid_chars
   \<and> clean_name [CHR ''a'', CHR '':'', CHR 0xC3, CHR 0xA9, CHR 0x5C] ! 1 = CHR ''_''
   \<and> clean_name [CHR ''a'', CHR '':'', CHR 0xC3, CHR 0xA9, CHR 0x5C] ! 2 = CHR 0xC3
   \<and> clean_name (clean_name [CHR ''a'', CHR '':'', CHR 0xC3, CHR 0xA9, CHR 0x5C])
       = [CHR ''a'', CHR ''_'', CHR 0xC3, CHR 0xA9, CHR ''_'']"
proof -
  let ?s = "[CHR ''a'', CHR '':'', CHR 0xC3, CHR 0xA9, CHR 0x5C]"
  have len: "(1::nat) < length ?s" "(2::nat) < length ?s" by simp_all
  have bad: "?s ! 1 \<in> set invalid_chars" by (simp add: invalid_chars_def)
  have good: "?s ! 2 \<notin> set invalid_chars" by (simp add: invalid_chars_def)
  note inst = clean_name_total_idempotent [of ?s]
  from inst len(1) bad have one: "clean_name ?s ! 1 = CHR ''_''" by blast
  from inst len(2) good have two: "clean_name ?s ! 2 = ?s ! 2" by blast
  from inst have "clean_name (clean_name ?s) = clean_name ?s" by blast
  then have idem: "clean_name (clean_name ?s) = [CHR ''a'', CHR ''_'', CHR 0xC3, CHR 0xA9, CHR ''_'']"
    by (simp add: invalid_chars_def)
  from len bad good one two idem show ?thesis by simp
qed

subsection \<open>The traversal and the parent dictionary\<close>

lemma elem_at_append:
  "elem_at e (p @ q) = (case elem_at e p of None \<Rightarrow> None | Some e' \<Rightarrow> elem_at e' q)"
  by (induction e p rule: elem_at.induct) auto

lemma iter_sets:
  "set (iter_at p e) = {(p @ q, e') | q e'. elem_at e q = Some e'}"
  "set (iter_children p i cs) =
     {(p @ (i + j) # q, e') | j q e'. j < length cs \<and> elem_at (cs ! j) q = Some e'}"
proof (induction p e and p i cs rule: iter_at_iter_children.induct)
  case (1 p t a x cs)
  have "{(p @ q, e') | q e'. elem_at (Element t a x cs) q = Some e'}
      = insert (p, Element t a x cs)
          {(p @ j # q, e') | j q e'. j < length cs \<and> elem_at (cs ! j) q = Some e'}"
    (is "?L = ?R")
  proof (rule set_eqI, rule iffI)
    fix z assume "z \<in> ?L"
    then obtain q e' where z: "z = (p @ q, e')" and at: "elem_at (Element t a x cs) q = Some e'"
      by blast
    show "z \<in> ?R"
    proof (cases q)
      case Nil
      with z at show ?thesis by simp
    next
      case (Cons j q')
      with z at show ?thesis by (auto split: if_splits)
    qed
  next
    fix z assume "z \<in> ?R"
    then show "z \<in> ?L"
    proof
      assume "z = (p, Element t a x cs)"
      then have "z = (p @ [], Element t a x cs) \<and> elem_at (Element t a x cs) [] = Some (Element t a x cs)"
        by simp
      then show ?thesis by blast
    next
      assume "z \<in> {(p @ j # q, e') | j q e'. j < length cs \<and> elem_at (cs ! j) q = Some e'}"
      then obtain j q e' where "z = (p @ j # q, e')" "j < length cs" "elem_at (cs ! j) q = Some e'"
        by blast
      then have "z = (p @ (j # q), e') \<and> elem_at (Element t a x cs) (j # q) = Some e'"
        by simp
      then show ?thesis by blast
    qed
  qed
  with 1 show ?case by simp
next
  case (2 p i)
  show ?case by simp
next
  case (3 p i c cs)
  have "{(p @ (i + j) # q, e') | j q e'. j < length (c # cs) \<and> elem_at ((c # cs) ! j) q = Some e'}
      = {((p @ [i]) @ q, e') | q e'. elem_at c q = Some e'}
        \<union> {(p @ (Suc i + j) # q, e') | j q e'. j < length cs \<and> elem_at (cs ! j) q = Some e'}"
    (is "?L = ?A \<union> ?B")
  proof (rule set_eqI, rule iffI)
    fix z assume "z \<in> ?L"
    then obtain j q e' where z: "z = (p @ (i + j) # q, e')" and j: "j < length (c # cs)"
      and at: "elem_at ((c # cs) ! j) q = Some e'" by blast
    show "z \<in> ?A \<union> ?B"
    proof (cases j)
      case 0
      with z at have "z \<in> ?A" by simp
      then show ?thesis ..
    next
      case (Suc k)
      with z j at have "z = (p @ (Suc i + k) # q, e') \<and> k < length cs \<and> elem_at (cs ! k) q = Some e'"
        by simp
      then have "z \<in> ?B" by blast
      then show ?thesis ..
    qed
  next
    fix z assume "z \<in> ?A \<union> ?B"
    then show "z \<in> ?L"
    proof
      assume "z \<in> ?A"
      then obtain q e' where "z = ((p @ [i]) @ q, e')" "elem_at c q = Some e'" by blast
      then have "z = (p @ (i + 0) # q, e') \<and> 0 < length (c # cs) \<and> elem_at ((c # cs) ! 0) q = Some e'"
        by simp
      then show ?thesis by blast
    next
      assume "z \<in> ?B"
      then obtain j q e' where "z = (p @ (Suc i + j) # q, e')" "j < length cs" "elem_at (cs ! j) q = Some e'"
        by blast
      then have "z = (p @ (i + Suc j) # q, e') \<and> Suc j < length (c # cs)
          \<and> elem_at ((c # cs) ! Suc j) q = Some e'"
        by simp
      then show ?thesis by blast
    qed
  qed
  with 3 show ?case by simp
qed

lemma set_iter: "set (iter root) = {(p, e). elem_at root p = Some e}"
  by (auto simp: iter_def iter_sets(1))

lemma fold_children_edges:
  "fold (\<lambda>child m. m(fst child \<mapsto> parent)) cs m
     = fold (\<lambda>(k, v) m. m(k \<mapsto> v)) (map (\<lambda>child. (fst child, parent)) cs) m"
  by (simp add: fold_map comp_def)

lemma fold_parents_edges:
  "fold (\<lambda>parent m. fold (\<lambda>child m. m(fst child \<mapsto> parent)) (child_nodes parent) m) ps m
     = fold (\<lambda>(k, v) m. m(k \<mapsto> v))
         (concat (map (\<lambda>parent. map (\<lambda>child. (fst child, parent)) (child_nodes parent)) ps)) m"
  by (induction ps arbitrary: m) (simp_all add: fold_children_edges)

lemma build_parent_map_edges:
  "build_parent_map root = fold (\<lambda>(k, v) m. m(k \<mapsto> v)) (parent_edges root) Map.empty"
  by (simp add: build_parent_map_def parent_edges_def fold_parents_edges)

lemma fold_upd_lookup:
  assumes "\<forall>(k, v) \<in> set kvs. v = f k"
  shows "fold (\<lambda>(k, v) m. m(k \<mapsto> v)) kvs m k
           = (if k \<in> fst ` set kvs then Some (f k) else m k)"
  using assms by (induction kvs arbitrary: m) (auto split: prod.splits)

lemma set_child_nodes:
  "set (child_nodes (p, e)) = {(p @ [i], children e ! i) | i. i < length (children e)}"
proof -
  have "set (List.enumerate 0 (children e)) = {(i, children e ! i) | i. i < length (children e)}"
    by (auto simp: in_set_enumerate_eq)
  then show ?thesis
    by (auto simp: child_nodes_def)
qed

lemma set_parent_edges:
  "set (parent_edges root)
     = {(p @ [i], (p, e)) | p e i. elem_at root p = Some e \<and> i < length (children e)}"
  by (auto simp: parent_edges_def set_iter set_child_nodes) force

lemma elem_at_snoc:
  "elem_at root (p @ [i]) = Some c \<longleftrightarrow>
     (\<exists>e. elem_at root p = Some e \<and> i < length (children e) \<and> c = children e ! i)"
  by (auto simp: elem_at_append split: option.splits)

lemma build_parent_map_snoc:
  assumes "elem_at root (p @ [i]) = Some c"
  shows "\<exists>e. elem_at root p = Some e \<and> build_parent_map root (p @ [i]) = Some (p, e)"
proof -
  from assms obtain e where e: "elem_at root p = Some e" and i: "i < length (children e)"
    by (auto simp: elem_at_snoc)
  define f :: "position \<Rightarrow> node" where
    "f k = (butlast k, case elem_at root (butlast k) of Some x \<Rightarrow> x | None \<Rightarrow> root)" for k
  have vals: "\<forall>(k, v) \<in> set (parent_edges root). v = f k"
    by (auto simp: set_parent_edges f_def)
  have "(p @ [i], (p, e)) \<in> set (parent_edges root)"
    using e i by (auto simp: set_parent_edges)
  then have key: "p @ [i] \<in> fst ` set (parent_edges root)"
    by force
  have "build_parent_map root (p @ [i]) = Some (f (p @ [i]))"
    by (simp add: build_parent_map_edges fold_upd_lookup [OF vals] key)
  with e show ?thesis by (simp add: f_def)
qed

lemma below_root_snoc:
  "elem_at root (p @ [i]) = Some c \<Longrightarrow> below_root root (p @ [i]) = below_root root p @ [c]"
  by (induction root p rule: below_root.induct) (auto split: if_splits)

lemma walk_up_resolve:
  "elem_at root p = Some e \<Longrightarrow>
     walk_up (build_parent_map root) (Some (p, e)) path
       = Some (resolve (rev (below_root root p)) path)"
proof (induction p arbitrary: e path rule: rev_induct)
  case Nil
  show ?case by (subst walk_up.simps) simp
next
  case (snoc i p)
  from build_parent_map_snoc [OF snoc.prems] obtain e' where
    e': "elem_at root p = Some e'" and pm: "build_parent_map root (p @ [i]) = Some (p, e')"
    by blast
  note IH = snoc.IH [OF e']
  show ?case
    by (subst walk_up.simps)
       (simp add: below_root_snoc [OF snoc.prems] pm IH item_name_def split: option.splits)
qed

lemma find_parent_service_resolve:
  "elem_at root p = Some e \<Longrightarrow>
     find_parent_service (p, e) root = Some (resolve (rev (below_root root p)) [])"
  by (simp add: find_parent_service_def walk_up_resolve)

subsection \<open>The result of \<^verbatim>\<open>find_parent_service\<close>\<close>

lemma item_names_append: "item_names (xs @ ys) = item_names xs @ item_names ys"
  by (simp add: item_names_def List.map_filter_def)

lemma item_names_single:
  "item_names [e] = (case item_name e of None \<Rightarrow> [] | Some n \<Rightarrow> [n])"
  by (simp add: item_names_def List.map_filter_def split: option.splits)

lemma item_names_rev: "item_names (rev xs) = rev (item_names xs)"
  by (simp add: item_names_def List.map_filter_def rev_map rev_filter)

lemma resolve_service:
  assumes "service_named s" and "\<forall>b \<in> set bs. \<not> service_named b"
  shows "resolve (bs @ s # outer) path = (item_name s, rev (path @ item_names bs))"
  using assms
proof (induction bs arbitrary: path)
  case Nil
  then show ?case
    by (auto simp: service_named_def item_names_def List.map_filter_def split: option.splits)
next
  case (Cons b bs)
  then have IH: "\<And>path. resolve (bs @ s # outer) path = (item_name s, rev (path @ item_names bs))"
    by simp
  from Cons.prems have nb: "\<not> service_named b" by simp
  show ?case
  proof (cases "item_name b")
    case None
    then show ?thesis
      using IH by (simp add: item_names_def List.map_filter_def)
  next
    case (Some n)
    with nb have "n \<notin> set service_names" by (simp add: service_named_def)
    with Some show ?thesis
      using IH by (simp add: item_names_def List.map_filter_def)
  qed
qed

lemma resolve_no_service:
  "\<forall>b \<in> set bs. \<not> service_named b \<Longrightarrow> resolve bs path = (None, [])"
proof (induction bs arbitrary: path)
  case Nil
  show ?case by simp
next
  case (Cons b bs)
  then show ?case
    by (cases "item_name b") (auto simp: service_named_def)
qed

lemma fst_resolve:
  "fst (resolve bs path)
     = (case dropWhile (\<lambda>e. \<not> service_named e) bs of [] \<Rightarrow> None | s # _ \<Rightarrow> item_name s)"
proof (induction bs arbitrary: path)
  case Nil
  show ?case by simp
next
  case (Cons b bs)
  then show ?case
    by (cases "item_name b") (auto simp: service_named_def)
qed

lemma length_below_root: "elem_at root p = Some e \<Longrightarrow> length (below_root root p) = length p"
  by (induction root p rule: below_root.induct) (auto split: if_splits)

lemma last_below_root:
  "elem_at root p = Some e \<Longrightarrow> p \<noteq> [] \<Longrightarrow> last (below_root root p) = e"
proof (induction root p rule: below_root.induct)
  case (1 r)
  then show ?case by simp
next
  case (2 r i p)
  from "2.prems"(1) have i: "i < length (children r)" and at: "elem_at (children r ! i) p = Some e"
    by (auto split: if_splits)
  show ?case
  proof (cases p)
    case Nil
    with i at show ?thesis by simp
  next
    case (Cons j q)
    with length_below_root [OF at] have "below_root (children r ! i) p \<noteq> []"
      by (auto simp del: below_root.simps)
    moreover from "2.IH" [OF i at] Cons have "last (below_root (children r ! i) p) = e" by simp
    ultimately show ?thesis using i by simp
  qed
qed

lemma below_root_append:
  "elem_at root p = Some e \<Longrightarrow> below_root root (p @ q) = below_root root p @ below_root e q"
  by (induction root p rule: below_root.induct) (auto split: if_splits)

lemma find_parent_service_below:
  assumes "elem_at root p = Some e"
    and "below_root root p = outer @ s # inner"
    and "service_named s"
    and "\<forall>b \<in> set inner. \<not> service_named b"
  shows "find_parent_service (p, e) root = Some (item_name s, item_names inner)"
proof -
  have "rev (below_root root p) = rev inner @ s # rev outer"
    by (simp add: assms(2))
  moreover have "\<forall>b \<in> set (rev inner). \<not> service_named b"
    using assms(4) by simp
  ultimately have "resolve (rev (below_root root p)) [] = (item_name s, rev ([] @ item_names (rev inner)))"
    using resolve_service [OF assms(3), of "rev inner" "rev outer" "[]"] by simp
  then show ?thesis
    by (simp add: find_parent_service_resolve [OF assms(1)] item_names_rev)
qed

text \<open>
  Claim C1, as the code has it. For a node of the tree below an element named after a
  service, with no element named after a service strictly below that one on the way
  to the node, \<^verbatim>\<open>find_parent_service\<close> returns that service name together with the
  names collected strictly below the service, outermost first, down to and
  \<^emph>\<open>including\<close> the node itself: the names of the elements strictly between the
  service and the node, followed by the node's own name when it has one.
\<close>

theorem find_parent_service_path:
  assumes "elem_at root p = Some e"
    and "below_root root p = outer @ s # inner"
    and "service_named s"
    and "\<forall>b \<in> set inner. \<not> service_named b"
  shows "find_parent_service (p, e) root = Some (item_name s, item_names inner)
       \<and> (inner \<noteq> [] \<longrightarrow> last inner = e)
       \<and> (inner \<noteq> [] \<longrightarrow>
            item_names inner
              = item_names (butlast inner) @ (case item_name e of None \<Rightarrow> [] | Some n \<Rightarrow> [n]))"
proof -
  have res: "find_parent_service (p, e) root = Some (item_name s, item_names inner)"
    using assms by (rule find_parent_service_below)
  have node: "last inner = e" if "inner \<noteq> []"
  proof -
    from that assms(2) have "p \<noteq> []" by auto
    from last_below_root [OF assms(1) this] that show ?thesis
      by (simp add: assms(2))
  qed
  have split: "item_names inner
      = item_names (butlast inner) @ (case item_name e of None \<Rightarrow> [] | Some n \<Rightarrow> [n])"
    if "inner \<noteq> []"
  proof -
    from that have "inner = butlast inner @ [last inner]" by simp
    then have "item_names inner = item_names (butlast inner) @ item_names [last inner]"
      by (metis item_names_append)
    with node [OF that] show ?thesis by (simp add: item_names_single)
  qed
  from res node split show ?thesis by blast
qed

text \<open>
  The theorem at the script \<^verbatim>\<open>Move\<close> of \<^verbatim>\<open>StarterPlayer/StarterPlayerScripts/Move\<close>.
\<close>

theorem find_parent_service_path_witness:
  "elem_at move_tree [0, 1, 1] = Some move_script
   \<and> below_root move_tree [0, 1, 1] = [] @ move_service # [move_folder, move_script]
   \<and> service_named move_service
   \<and> \<not> service_named move_folder
   \<and> \<not> service_named move_script
   \<and> find_parent_service ([0, 1, 1], move_script) move_tree
       = Some (Some ''StarterPlayer'', [''StarterPlayerScripts'', ''Move''])
   \<and> last [move_folder, move_script] = move_script"
proof -
  have at: "elem_at move_tree [0, 1, 1] = Some move_script" by code_simp
  have chain: "below_root move_tree [0, 1, 1] = [] @ move_service # [move_folder, move_script]"
    by code_simp
  have sn: "service_named move_service" by code_simp
  have nf: "\<not> service_named move_folder" by code_simp
  have ns: "\<not> service_named move_script" by code_simp
  from nf ns have nb: "\<forall>b \<in> set [move_folder, move_script]. \<not> service_named b" by simp
  from find_parent_service_path [OF at chain sn nb]
  have res: "find_parent_service ([0, 1, 1], move_script) move_tree
      = Some (item_name move_service, item_names [move_folder, move_script])"
    and node: "last [move_folder, move_script] = move_script"
    by blast+
  have "item_name move_service = Some ''StarterPlayer''" by code_simp
  moreover have "item_names [move_folder, move_script] = [''StarterPlayerScripts'', ''Move'']"
    by code_simp
  ultimately have "find_parent_service ([0, 1, 1], move_script) move_tree
      = Some (Some ''StarterPlayer'', [''StarterPlayerScripts'', ''Move''])"
    using res by simp
  with at chain sn nf ns node show ?thesis by blast
qed

text \<open>
  Claim C1 as stated fails: for the script \<^verbatim>\<open>Move\<close> the specification's sequence, which
  excludes the node, is \<^verbatim>\<open>['StarterPlayerScripts']\<close>, and the code returns
  \<^verbatim>\<open>['StarterPlayerScripts', 'Move']\<close>.
\<close>

theorem find_parent_service_excludes_node_counterexample:
  "find_parent_service ([0, 1, 1], move_script) move_tree
     = Some (Some ''StarterPlayer'', [''StarterPlayerScripts'', ''Move''])
   \<and> spec_resolution move_tree [0, 1, 1] = (Some ''StarterPlayer'', [''StarterPlayerScripts''])
   \<and> find_parent_service ([0, 1, 1], move_script) move_tree
       \<noteq> Some (spec_resolution move_tree [0, 1, 1])"
  by code_simp

text \<open>
  Claim C10, as the code has it. The walk never inspects the root of the document.
  For every node of the tree the service returned is the name of the nearest element
  named after a service among the node and its ancestors below the root, at whatever
  depth that element lies; a node other than the root that is itself named after a
  service resolves to its own name with an empty path; and every descendant of such a
  node with no nearer element named after a service resolves to that node's name.
\<close>

theorem resolver_nearest_service:
  assumes "elem_at root p = Some e"
  shows "map_option fst (find_parent_service (p, e) root)
           = Some (nearest_service (below_root root p))
       \<and> (p \<noteq> [] \<longrightarrow> service_named e
            \<longrightarrow> find_parent_service (p, e) root = Some (item_name e, []))
       \<and> (\<forall>q d. p \<noteq> [] \<longrightarrow> service_named e \<longrightarrow> elem_at e q = Some d
              \<longrightarrow> (\<forall>b \<in> set (below_root e q). \<not> service_named b)
              \<longrightarrow> find_parent_service (p @ q, d) root
                    = Some (item_name e, item_names (below_root e q)))"
proof -
  have nearest: "map_option fst (find_parent_service (p, e) root)
           = Some (nearest_service (below_root root p))"
    by (simp add: find_parent_service_resolve [OF assms] fst_resolve nearest_service_def)
  have desc: "find_parent_service (p @ q, d) root
                    = Some (item_name e, item_names (below_root e q))"
    if p: "p \<noteq> []" and sn: "service_named e" and d: "elem_at e q = Some d"
      and nb: "\<forall>b \<in> set (below_root e q). \<not> service_named b" for q d
  proof -
    from last_below_root [OF assms p] have "last (below_root root p) = e" .
    moreover from p length_below_root [OF assms] have "below_root root p \<noteq> []"
      by (auto simp del: below_root.simps)
    ultimately have "below_root root p = butlast (below_root root p) @ [e]"
      by (metis append_butlast_last_id)
    then have chain: "below_root root (p @ q) = butlast (below_root root p) @ e # below_root e q"
      by (simp add: below_root_append [OF assms])
    have at: "elem_at root (p @ q) = Some d"
      by (simp add: elem_at_append assms d)
    from at chain sn nb show ?thesis by (rule find_parent_service_below)
  qed
  have self: "find_parent_service (p, e) root = Some (item_name e, [])"
    if "p \<noteq> []" and "service_named e"
    using desc [OF that, of "[]" e] by (simp add: item_names_def List.map_filter_def)
  from nearest self desc show ?thesis by blast
qed

text \<open>
  The theorem at the folder named \<^verbatim>\<open>ReplicatedStorage\<close> inside \<^verbatim>\<open>Workspace\<close> and at the
  script it holds.
\<close>

theorem resolver_nearest_service_witness:
  "elem_at nested_tree [0, 1] = Some nested_folder
   \<and> service_named nested_folder
   \<and> elem_at nested_folder [1] = Some nested_script
   \<and> \<not> service_named nested_script
   \<and> map_option fst (find_parent_service ([0, 1], nested_folder) nested_tree)
       = Some (Some ''ReplicatedStorage'')
   \<and> find_parent_service ([0, 1], nested_folder) nested_tree = Some (Some ''ReplicatedStorage'', [])
   \<and> find_parent_service ([0, 1, 1], nested_script) nested_tree
       = Some (Some ''ReplicatedStorage'', [''A''])"
proof -
  have at: "elem_at nested_tree [0, 1] = Some nested_folder" by code_simp
  have pos: "[0, 1] \<noteq> ([] :: nat list)" by simp
  have sn: "service_named nested_folder" by code_simp
  have d: "elem_at nested_folder [1] = Some nested_script" by code_simp
  have ns: "\<not> service_named nested_script" by code_simp
  have chain: "below_root nested_folder [1] = [nested_script]" by code_simp
  with ns have nb: "\<forall>b \<in> set (below_root nested_folder [1]). \<not> service_named b" by simp
  note inst = resolver_nearest_service [OF at]
  from inst have "map_option fst (find_parent_service ([0, 1], nested_folder) nested_tree)
      = Some (nearest_service (below_root nested_tree [0, 1]))"
    by blast
  moreover have "nearest_service (below_root nested_tree [0, 1]) = Some ''ReplicatedStorage''"
    by code_simp
  ultimately have nearest: "map_option fst (find_parent_service ([0, 1], nested_folder) nested_tree)
      = Some (Some ''ReplicatedStorage'')"
    by simp
  have name: "item_name nested_folder = Some ''ReplicatedStorage''" by code_simp
  from inst pos sn have "find_parent_service ([0, 1], nested_folder) nested_tree
      = Some (item_name nested_folder, [])"
    by blast
  with name have self: "find_parent_service ([0, 1], nested_folder) nested_tree
      = Some (Some ''ReplicatedStorage'', [])"
    by simp
  from inst pos sn d nb have "find_parent_service ([0, 1] @ [1], nested_script) nested_tree
      = Some (item_name nested_folder, item_names (below_root nested_folder [1]))"
    by blast
  moreover have "item_names (below_root nested_folder [1]) = [''A'']" by code_simp
  ultimately have desc: "find_parent_service ([0, 1, 1], nested_script) nested_tree
      = Some (Some ''ReplicatedStorage'', [''A''])"
    using name by simp
  from at sn d ns nearest self desc show ?thesis by blast
qed

text \<open>
  Claim C10 as stated fails at the root of the document. When the root element is
  itself an item named \<^verbatim>\<open>Workspace\<close>, the script it holds has an ancestor named after
  a service, the nearest such element among the node and all its ancestors is that
  root, and the walk stops at the root without looking at its name: no service is
  returned, and the run writes nothing.
\<close>

theorem root_named_after_service_counterexample:
  "elem_at root_service_tree [1] = Some inner_script
   \<and> service_named root_service_tree
   \<and> nearest_service (root_service_tree # below_root root_service_tree [1]) = Some ''Workspace''
   \<and> find_parent_service ([1], inner_script) root_service_tree = Some (None, [])
   \<and> find_parent_service ([], root_service_tree) root_service_tree = Some (None, [])
   \<and> extract_scripts_with_structure empty_fs root_service_tree = Some (Inr start_state)
   \<and> files (fsys start_state) = []"
  by code_simp

subsection \<open>Cleaned names as path components\<close>

lemma clean_name_no_slash: "CHR ''/'' \<notin> set (clean_name s)"
  by (induction s) (auto simp: invalid_chars_def)

lemma hd_clean_name_lua: "hd (clean_name n @ ''.lua'') \<noteq> CHR ''/''"
  using clean_name_no_slash [of n] by (cases "clean_name n") auto

subsection \<open>Items the loop passes over\<close>

lemma process_items_append:
  "process_items root st (xs @ ys)
     = (case process_items root st xs of
          None \<Rightarrow> None
        | Some (Inl err) \<Rightarrow> Some (Inl err)
        | Some (Inr st') \<Rightarrow> process_items root st' ys)"
  by (induction xs arbitrary: st) (auto split: option.splits sum.splits)

lemma process_item_no_name:
  "name_text e = None \<Longrightarrow> process_item root st (p, e) = Some (Inr st)"
  by (simp add: process_item_def)

lemma process_item_no_service:
  assumes "elem_at root p = Some e" and "\<forall>b \<in> set (below_root root p). \<not> service_named b"
  shows "process_item root st (p, e) = Some (Inr st)"
proof -
  from assms(2) have "resolve (rev (below_root root p)) [] = (None, [])"
    by (simp add: resolve_no_service)
  then show ?thesis
    by (simp add: process_item_def Let_def find_parent_service_resolve [OF assms(1)] split: option.splits)
qed

lemma process_item_no_source:
  assumes "elem_at root p = Some e"
    and "get e ''class'' \<in> Some ` set script_classes" and "source_text e = None"
  shows "process_item root st (p, e) = Some (Inr st)"
  using assms(2,3)
  by (simp add: process_item_def Let_def find_parent_service_resolve [OF assms(1)]
      split: option.splits prod.splits)

text \<open>
  Claim C7. An item of the tree that has no (non-empty) \<^verbatim>\<open>Name\<close>, or whose walk reaches
  the root without meeting an element named after a service, or that is of a script
  class and has no (non-empty) \<^verbatim>\<open>Source\<close>, leaves the state of the loop as it is: no
  file and no directory is created, nothing is added to \<^verbatim>\<open>scripts_found\<close>, from which
  the summary counts are taken, and no exception is raised. The loop over a traversal
  that contains the item ends as the loop over the traversal without it.
\<close>

theorem resolution_gaps_skipped:
  assumes "elem_at root p = Some e"
    and "name_text e = None
       \<or> (\<forall>b \<in> set (below_root root p). \<not> service_named b)
       \<or> (get e ''class'' \<in> Some ` set script_classes \<and> source_text e = None)"
  shows "process_item root st (p, e) = Some (Inr st)
       \<and> process_items root st0 (before @ (p, e) # after) = process_items root st0 (before @ after)"
proof -
  have step: "process_item root st (p, e) = Some (Inr st)" for st
    using assms process_item_no_name process_item_no_service process_item_no_source
    by blast
  have "process_items root st0 (before @ (p, e) # after) = process_items root st0 (before @ after)"
    by (simp add: process_items_append step split: option.splits sum.splits)
  with step show ?thesis by blast
qed

text \<open>
  The theorem at the three items of the example tree, one for each case, and the run
  on that tree, which writes nothing.
\<close>

theorem resolution_gaps_skipped_witness:
  "elem_at gaps_tree [0] = Some unnamed_script
   \<and> name_text unnamed_script = None
   \<and> process_item gaps_tree start_state ([0], unnamed_script) = Some (Inr start_state)
   \<and> elem_at gaps_tree [1] = Some orphan_script
   \<and> below_root gaps_tree [1] = [orphan_script]
   \<and> \<not> service_named orphan_script
   \<and> process_item gaps_tree start_state ([1], orphan_script) = Some (Inr start_state)
   \<and> elem_at gaps_tree [2, 1] = Some empty_script
   \<and> get empty_script ''class'' = Some ''Script''
   \<and> source_text empty_script = None
   \<and> process_item gaps_tree start_state ([2, 1], empty_script) = Some (Inr start_state)
   \<and> extract_scripts_with_structure empty_fs gaps_tree = Some (Inr start_state)
   \<and> total_scripts start_state = 0"
proof -
  have at0: "elem_at gaps_tree [0] = Some unnamed_script" by code_simp
  have no_name: "name_text unnamed_script = None" by code_simp
  have at1: "elem_at gaps_tree [1] = Some orphan_script" by code_simp
  have chain: "below_root gaps_tree [1] = [orphan_script]" by code_simp
  have orphan: "\<not> service_named orphan_script" by code_simp
  have at2: "elem_at gaps_tree [2, 1] = Some empty_script" by code_simp
  have cls: "get empty_script ''class'' = Some ''Script''" by code_simp
  have no_source: "source_text empty_script = None" by code_simp
  have run: "extract_scripts_with_structure empty_fs gaps_tree = Some (Inr start_state)"
    by code_simp
  have total: "total_scripts start_state = 0" by code_simp
  from no_name resolution_gaps_skipped [OF at0, of start_state]
  have step0: "process_item gaps_tree start_state ([0], unnamed_script) = Some (Inr start_state)"
    by blast
  from chain orphan have "\<forall>b \<in> set (below_root gaps_tree [1]). \<not> service_named b" by simp
  with resolution_gaps_skipped [OF at1, of start_state]
  have step1: "process_item gaps_tree start_state ([1], orphan_script) = Some (Inr start_state)"
    by blast
  from cls have "get empty_script ''class'' \<in> Some ` set script_classes"
    by (simp add: script_classes_def)
  with no_source resolution_gaps_skipped [OF at2, of start_state]
  have step2: "process_item gaps_tree start_state ([2, 1], empty_script) = Some (Inr start_state)"
    by blast
  from at0 no_name step0 at1 chain orphan step1 at2 cls no_source step2 run total
  show ?thesis by blast
qed

subsection \<open>How often the parent dictionary is built\<close>

lemma process_items_assignments_done:
  "process_items root st items = Some (Inr st') \<Longrightarrow>
     process_items_assignments root st items
       = length (filter (\<lambda>item. name_text (snd item) \<noteq> None) items) * length (parent_edges root)"
proof (induction items arbitrary: st)
  case Nil
  show ?case by simp
next
  case (Cons item items)
  from Cons.prems obtain st1 where
    step: "process_item root st item = Some (Inr st1)"
    and rest: "process_items root st1 items = Some (Inr st')"
    by (auto split: option.splits sum.splits)
  from Cons.IH [OF rest] step show ?case
    by (simp add: find_parent_service_assignments_def split: option.splits)
qed

text \<open>
  Claim C9, what the code does instead. In a run that completes, the dictionary from
  child to parent is filled once by lines 78--81, where it is never read, and once
  more in every call of \<^verbatim>\<open>find_parent_service\<close>, that is, once for every item with a
  name: the assignments of lines 26 and 81 number one pass over the tree for each such
  item, plus one.
\<close>

theorem parent_map_rebuilt_per_item:
  assumes "extract_scripts_with_structure fs0 root = Some (Inr st)"
  shows "extract_assignments fs0 root
           = (1 + length (named_items root)) * length (parent_edges root)"
proof -
  from assms obtain fs1 where prep: "prepare_output fs0 = Inr fs1"
    and run: "process_items root \<lparr>fsys = fs1, scripts_found = [], folder_structure = {}\<rparr>
                (iter_tag root ''Item'') = Some (Inr st)"
    by (auto simp: extract_scripts_with_structure_def split: sum.splits)
  from process_items_assignments_done [OF run] prep show ?thesis
    by (simp add: extract_assignments_def named_items_def)
qed

text \<open>
  The theorem at the tree \<^verbatim>\<open>StarterPlayer/StarterPlayerScripts/Move\<close>: three items with a
  name, ten elements below the root, and forty assignments where one pass makes ten.
\<close>

theorem parent_map_rebuilt_per_item_witness:
  "completes empty_fs move_tree
   \<and> length (named_items move_tree) = 3
   \<and> length (parent_edges move_tree) = 10
   \<and> extract_assignments empty_fs move_tree = 40"
proof -
  have ok: "completes empty_fs move_tree" by code_simp
  then obtain st where run: "extract_scripts_with_structure empty_fs move_tree = Some (Inr st)"
    by (auto simp: completes_def split: option.splits sum.splits)
  have items: "length (named_items move_tree) = 3" by code_simp
  have edges: "length (parent_edges move_tree) = 10" by code_simp
  from parent_map_rebuilt_per_item [OF run] items edges
  have "extract_assignments empty_fs move_tree = 40" by simp
  with ok items edges show ?thesis by blast
qed

subsection \<open>What the operations on the file system change\<close>

lemma mkdir_chain_result:
  "mkdir_chain fs ds = Inr fs' \<Longrightarrow>
     files fs' = files fs \<and> set (dirs fs') = set (dirs fs) \<union> set ds"
proof (induction ds arbitrary: fs)
  case Nil
  then show ?case by simp
next
  case (Cons d ds)
  show ?case
  proof (cases "isdir fs d")
    case True
    with Cons.prems have "mkdir_chain fs ds = Inr fs'" by simp
    from Cons.IH [OF this] True show ?thesis
      by (auto simp: isdir_def isfile_def)
  next
    case False
    with Cons.prems have rest: "mkdir_chain (fs\<lparr>dirs := dirs fs @ [d]\<rparr>) ds = Inr fs'"
      by (auto split: if_splits)
    from Cons.IH [OF rest] show ?thesis
      by auto
  qed
qed

lemma makedirs_result:
  "makedirs fs name = Inr fs' \<Longrightarrow>
     files fs' = files fs \<and> set (dirs fs') = set (dirs fs) \<union> set (path_prefixes name)"
  by (auto simp: makedirs_def dest: mkdir_chain_result split: if_splits)

lemma update_fresh: "k \<notin> fst ` set kvs \<Longrightarrow> update k v kvs = kvs @ [(k, v)]"
  by (induction kvs) auto

lemma write_file_fresh:
  "write_file fs p c = Inr fs' \<Longrightarrow> \<not> isfile fs p \<Longrightarrow>
     dirs fs' = dirs fs \<and> files fs' = files fs @ [(p, c)] \<and> \<not> isdir fs p"
  by (auto simp: write_file_def isfile_def update_fresh split: if_splits)

lemma first_free_free: "\<not> path_exists fs (suffixed b (first_free fs b c))"
proof (induction fs b c rule: first_free.induct)
  case (1 fs b c)
  then show ?case by (subst first_free.simps) auto
qed

lemma first_free_ge: "c \<le> first_free fs b c"
proof (induction fs b c rule: first_free.induct)
  case (1 fs b c)
  show ?case
  proof (cases "path_exists fs (suffixed b c)")
    case True
    with 1 have "c + 1 \<le> first_free fs b (c + 1)" by simp
    with True show ?thesis by (subst first_free.simps) simp
  next
    case False
    then show ?thesis by (subst first_free.simps) simp
  qed
qed

lemma first_free_least:
  "c \<le> k \<Longrightarrow> k < first_free fs b c \<Longrightarrow> path_exists fs (suffixed b k)"
proof (induction fs b c rule: first_free.induct)
  case (1 fs b c)
  show ?case
  proof (cases "path_exists fs (suffixed b c)")
    case True
    with "1.prems"(2) have less: "k < first_free fs b (c + 1)"
      by (subst (asm) first_free.simps) simp
    show ?thesis
    proof (cases "k = c")
      case True
      with \<open>path_exists fs (suffixed b c)\<close> show ?thesis by simp
    next
      case False
      with "1.prems"(1) have "c + 1 \<le> k" by simp
      from "1.IH" [OF True this less] show ?thesis .
    qed
  next
    case False
    with "1.prems" show ?thesis by (subst (asm) first_free.simps) simp
  qed
qed

lemma unique_path_free: "\<not> path_exists fs (unique_path fs p)"
  by (simp add: unique_path_def Let_def first_free_free)

lemma build_file_path_result:
  "build_file_path st base_dir pfs nm = Inr (st1, fp) \<Longrightarrow>
     files (fsys st1) = files (fsys st) \<and> scripts_found st1 = scripts_found st
     \<and> set (dirs (fsys st)) \<subseteq> set (dirs (fsys st1))"
  by (auto simp: build_file_path_def Let_def dest!: makedirs_result split: if_splits sum.splits)

lemma handle_script_result:
  assumes "handle_script st base_dir s pfs nm cls source = Inr st'"
  shows "\<exists>r. scripts_found st' = scripts_found st @ [r]
            \<and> files (fsys st') = files (fsys st) @ [(rec_path r, source)]
            \<and> \<not> path_exists (fsys st) (rec_path r)
            \<and> rec_name r = nm \<and> rec_type r = cls \<and> rec_service r = s
            \<and> set (dirs (fsys st)) \<subseteq> set (dirs (fsys st'))"
proof -
  let ?pfs = "starter_player_rewrite s pfs"
  from assms obtain st1 fp0 fs2 fs3 where
    b: "build_file_path st base_dir ?pfs nm = Inr (st1, fp0)"
    and m: "makedirs (fsys st1) (dirname (unique_path (fsys st1) fp0)) = Inr fs2"
    and w: "write_file fs2 (unique_path (fsys st1) fp0) source = Inr fs3"
    and st': "st' = st1\<lparr>fsys := fs3,
               scripts_found := scripts_found st1 @
                 [\<lparr>rec_name = nm, rec_type = cls, rec_path = unique_path (fsys st1) fp0,
                   rec_service = s, rec_full_path = str_join ''/'' (s # ?pfs)\<rparr>]\<rparr>"
    by (auto simp: handle_script_def Let_def split: sum.splits prod.splits)
  let ?fp = "unique_path (fsys st1) fp0"
  note b' = build_file_path_result [OF b]
  note m' = makedirs_result [OF m]
  have free: "\<not> path_exists (fsys st1) ?fp" by (rule unique_path_free)
  then have nofile2: "\<not> isfile fs2 ?fp"
    using m' by (simp add: path_exists_def isfile_def)
  note w' = write_file_fresh [OF w nofile2]
  from free b' have "\<not> path_exists (fsys st) ?fp"
    by (auto simp: path_exists_def isdir_def isfile_def)
  with st' b' m' w' show ?thesis
    by auto
qed

lemma handle_folder_result:
  "handle_folder st base_dir pfs = Inr st' \<Longrightarrow>
     files (fsys st') = files (fsys st) \<and> scripts_found st' = scripts_found st
     \<and> set (dirs (fsys st)) \<subseteq> set (dirs (fsys st'))"
  by (auto simp: handle_folder_def Let_def dest!: makedirs_result split: if_splits sum.splits)

lemma resolve_service_name: "resolve bs path = (Some s, pth) \<Longrightarrow> s \<in> set service_names"
proof (induction bs arbitrary: path)
  case Nil
  then show ?case by simp
next
  case (Cons b bs)
  then show ?case
    by (cases "item_name b") (auto split: if_splits)
qed

lemma service_mapping_total:
  "s \<in> set service_names \<Longrightarrow> s \<noteq> [] \<and> (\<exists>base_dir. map_of service_mapping s = Some base_dir)"
  by (auto simp: service_names_def service_mapping_def)

lemma process_item_step:
  assumes at: "elem_at root p = Some e"
    and step: "process_item root st (p, e) = Some (Inr st')"
  shows "(if is_written_script root (p, e)
          then \<exists>r. scripts_found st' = scripts_found st @ [r]
                 \<and> files (fsys st') = files (fsys st) @ [(rec_path r, source_of (p, e))]
                 \<and> \<not> path_exists (fsys st) (rec_path r)
                 \<and> rec_name r = name_of (p, e)
                 \<and> rec_type r = get e ''class''
          else scripts_found st' = scripts_found st \<and> files (fsys st') = files (fsys st))
         \<and> set (dirs (fsys st)) \<subseteq> set (dirs (fsys st'))"
proof (cases "name_text e")
  case None
  with step have "st' = st" by (simp add: process_item_def)
  with None show ?thesis by (simp add: is_written_script_def)
next
  case (Some nm)
  note fps = find_parent_service_resolve [OF at]
  obtain so pth where res: "resolve (rev (below_root root p)) [] = (so, pth)"
    by (cases "resolve (rev (below_root root p)) []") auto
  show ?thesis
  proof (cases so)
    case None
    with step Some res fps have "st' = st" by (simp add: process_item_def)
    with None res fps show ?thesis by (simp add: is_written_script_def)
  next
    case (Some s)
    with res have "s \<in> set service_names" by (auto dest: resolve_service_name)
    from service_mapping_total [OF this] obtain base_dir where
      s: "s \<noteq> []" and base: "map_of service_mapping s = Some base_dir" by blast
    show ?thesis
    proof (cases "get e ''class'' \<in> Some ` set script_classes")
      case script: True
      show ?thesis
      proof (cases "source_text e")
        case None
        with step \<open>name_text e = Some nm\<close> res Some fps s base script have "st' = st"
          by (simp add: process_item_def)
        with None show ?thesis by (simp add: is_written_script_def)
      next
        case (Some source)
        with step \<open>name_text e = Some nm\<close> res \<open>so = Some s\<close> fps s base script
        have h: "handle_script st base_dir s pth nm (get e ''class'') source = Inr st'"
          by (simp add: process_item_def)
        have w: "is_written_script root (p, e)"
          using \<open>name_text e = Some nm\<close> Some script res \<open>so = Some s\<close> fps
          by (simp add: is_written_script_def)
        from handle_script_result [OF h] w Some \<open>name_text e = Some nm\<close> show ?thesis
          by (auto simp: source_of_def name_of_def)
      qed
    next
      case other: False
      then have nw: "\<not> is_written_script root (p, e)" by (simp add: is_written_script_def)
      show ?thesis
      proof (cases "get e ''class'' = Some ''Folder''")
        case True
        with step \<open>name_text e = Some nm\<close> res Some fps s base other
        have "handle_folder st base_dir pth = Inr st'"
          by (simp add: process_item_def)
        from handle_folder_result [OF this] nw show ?thesis by simp
      next
        case False
        with step \<open>name_text e = Some nm\<close> res Some fps s base other have "st' = st"
          by (simp add: process_item_def)
        with nw show ?thesis by simp
      qed
    qed
  qed
qed

lemma process_items_result:
  assumes "process_items root st items = Some (Inr st')"
    and "\<forall>(p, e) \<in> set items. elem_at root p = Some e"
  shows "\<exists>recs. scripts_found st' = scripts_found st @ recs
           \<and> length recs = length (filter (is_written_script root) items)
           \<and> files (fsys st')
               = files (fsys st)
                 @ zip (map rec_path recs) (map source_of (filter (is_written_script root) items))
           \<and> distinct (map rec_path recs)
           \<and> (\<forall>r \<in> set recs. \<not> path_exists (fsys st) (rec_path r))
           \<and> map rec_name recs = map name_of (filter (is_written_script root) items)
           \<and> set (dirs (fsys st)) \<subseteq> set (dirs (fsys st'))"
  using assms
proof (induction items arbitrary: st)
  case Nil
  then show ?case by simp
next
  case (Cons item items)
  obtain p e where item: "item = (p, e)" by (cases item)
  from Cons.prems(2) item have at: "elem_at root p = Some e" by simp
  from Cons.prems(1) obtain st1 where
    step: "process_item root st (p, e) = Some (Inr st1)"
    and rest: "process_items root st1 items = Some (Inr st')"
    by (auto simp: item split: option.splits sum.splits)
  from Cons.prems(2) have valid: "\<forall>(p, e) \<in> set items. elem_at root p = Some e" by simp
  from Cons.IH [OF rest valid] obtain recs where
    sf: "scripts_found st' = scripts_found st1 @ recs"
    and len: "length recs = length (filter (is_written_script root) items)"
    and fl: "files (fsys st')
               = files (fsys st1)
                 @ zip (map rec_path recs) (map source_of (filter (is_written_script root) items))"
    and dist: "distinct (map rec_path recs)"
    and fresh: "\<forall>r \<in> set recs. \<not> path_exists (fsys st1) (rec_path r)"
    and names: "map rec_name recs = map name_of (filter (is_written_script root) items)"
    and dirs1: "set (dirs (fsys st1)) \<subseteq> set (dirs (fsys st'))"
    by blast
  note s = process_item_step [OF at step]
  show ?case
  proof (cases "is_written_script root (p, e)")
    case True
    with s obtain r where
      sf1: "scripts_found st1 = scripts_found st @ [r]"
      and fl1: "files (fsys st1) = files (fsys st) @ [(rec_path r, source_of (p, e))]"
      and new: "\<not> path_exists (fsys st) (rec_path r)"
      and nm: "rec_name r = name_of (p, e)"
      and dirs0: "set (dirs (fsys st)) \<subseteq> set (dirs (fsys st1))"
      by auto
    have r_in: "isfile (fsys st1) (rec_path r)" by (simp add: isfile_def fl1)
    have "rec_path r \<notin> set (map rec_path recs)"
    proof
      assume "rec_path r \<in> set (map rec_path recs)"
      then obtain r' where "r' \<in> set recs" "rec_path r' = rec_path r" by auto
      with fresh r_in show False by (auto simp: path_exists_def)
    qed
    moreover have "\<forall>r' \<in> set recs. \<not> path_exists (fsys st) (rec_path r')"
      using fresh fl1 dirs0 by (auto simp: path_exists_def isdir_def isfile_def)
    ultimately have "scripts_found st' = scripts_found st @ (r # recs)
           \<and> length (r # recs) = length (filter (is_written_script root) (item # items))
           \<and> files (fsys st')
               = files (fsys st)
                 @ zip (map rec_path (r # recs))
                     (map source_of (filter (is_written_script root) (item # items)))
           \<and> distinct (map rec_path (r # recs))
           \<and> (\<forall>r' \<in> set (r # recs). \<not> path_exists (fsys st) (rec_path r'))
           \<and> map rec_name (r # recs) = map name_of (filter (is_written_script root) (item # items))
           \<and> set (dirs (fsys st)) \<subseteq> set (dirs (fsys st'))"
      using True item sf sf1 len fl fl1 dist new nm names dirs0 dirs1 by auto
    then show ?thesis by blast
  next
    case False
    with s have sf1: "scripts_found st1 = scripts_found st"
      and fl1: "files (fsys st1) = files (fsys st)"
      and dirs0: "set (dirs (fsys st)) \<subseteq> set (dirs (fsys st1))"
      by auto
    have "\<forall>r' \<in> set recs. \<not> path_exists (fsys st) (rec_path r')"
      using fresh fl1 dirs0 by (auto simp: path_exists_def isdir_def isfile_def)
    then have "scripts_found st' = scripts_found st @ recs
           \<and> length recs = length (filter (is_written_script root) (item # items))
           \<and> files (fsys st')
               = files (fsys st)
                 @ zip (map rec_path recs)
                     (map source_of (filter (is_written_script root) (item # items)))
           \<and> distinct (map rec_path recs)
           \<and> (\<forall>r' \<in> set recs. \<not> path_exists (fsys st) (rec_path r'))
           \<and> map rec_name recs = map name_of (filter (is_written_script root) (item # items))
           \<and> set (dirs (fsys st)) \<subseteq> set (dirs (fsys st'))"
      using False item sf sf1 len fl fl1 dist names dirs0 dirs1 by auto
    then show ?thesis by blast
  qed
qed

lemma iter_tag_valid: "\<forall>(p, e) \<in> set (iter_tag root t). elem_at root p = Some e"
  by (auto simp: iter_tag_def set_iter)

subsection \<open>The files a run writes\<close>

lemma map_of_append_fresh:
  "k \<notin> fst ` set xs \<Longrightarrow> map_of (xs @ ys) k = map_of ys k"
  by (induction xs) auto

lemma run_content:
  assumes run: "process_items root st0 items = Some (Inr st)"
    and valid: "\<forall>(p, e) \<in> set items. elem_at root p = Some e"
    and empty: "scripts_found st0 = []"
    and i: "i < length (filter (is_written_script root) items)"
  shows "map_of (files (fsys st)) (rec_path (scripts_found st ! i))
           = Some (source_of (filter (is_written_script root) items ! i))"
proof -
  let ?nodes = "filter (is_written_script root) items"
  from process_items_result [OF run valid] empty obtain recs where
    sf: "scripts_found st = recs"
    and len: "length recs = length ?nodes"
    and fl: "files (fsys st) = files (fsys st0) @ zip (map rec_path recs) (map source_of ?nodes)"
    and dist: "distinct (map rec_path recs)"
    and fresh: "\<forall>r \<in> set recs. \<not> path_exists (fsys st0) (rec_path r)"
    by auto
  from i len have "recs ! i \<in> set recs" by simp
  with fresh have "rec_path (recs ! i) \<notin> fst ` set (files (fsys st0))"
    by (auto simp: path_exists_def isfile_def)
  then have "map_of (files (fsys st)) (rec_path (recs ! i))
      = map_of (zip (map rec_path recs) (map source_of ?nodes)) (rec_path (recs ! i))"
    unfolding fl by (rule map_of_append_fresh)
  also have "\<dots> = map_of (zip (map rec_path recs) (map source_of ?nodes)) (map rec_path recs ! i)"
    using i len by simp
  also have "\<dots> = Some (map source_of ?nodes ! i)"
    using i len dist by (intro map_of_zip_nth) simp_all
  finally show ?thesis using i sf by simp
qed




subsection \<open>The choice of a free file name\<close>

lemma unique_path_unsuffixed: "\<not> path_exists fs p \<Longrightarrow> unique_path fs p = p"
  by (simp add: unique_path_def)

lemma unique_path_suffixed:
  assumes "path_exists fs p"
  shows "\<exists>k\<ge>1. unique_path fs p = suffixed (take (length p - 4) p) k
           \<and> (\<forall>j. 1 \<le> j \<and> j < k \<longrightarrow> path_exists fs (suffixed (take (length p - 4) p) j))"
proof -
  let ?b = "take (length p - 4) p"
  let ?k = "first_free fs ?b 1"
  have "unique_path fs p = suffixed ?b ?k"
    using assms by (simp add: unique_path_def Let_def)
  moreover have "1 \<le> ?k" by (rule first_free_ge)
  moreover have "\<forall>j. 1 \<le> j \<and> j < ?k \<longrightarrow> path_exists fs (suffixed ?b j)"
    using first_free_least by blast
  ultimately show ?thesis by blast
qed

lemma handle_script_path:
  assumes "handle_script st base_dir s pfs nm cls source = Inr st'"
  shows "\<exists>st1 fp0. build_file_path st base_dir (starter_player_rewrite s pfs) nm = Inr (st1, fp0)
           \<and> files (fsys st1) = files (fsys st)
           \<and> scripts_found st' = scripts_found st
               @ [\<lparr>rec_name = nm, rec_type = cls, rec_path = unique_path (fsys st1) fp0,
                   rec_service = s,
                   rec_full_path = str_join ''/'' (s # starter_player_rewrite s pfs)\<rparr>]
           \<and> files (fsys st') = files (fsys st) @ [(unique_path (fsys st1) fp0, source)]"
proof -
  let ?pfs = "starter_player_rewrite s pfs"
  from assms obtain st1 fp0 fs2 fs3 where
    b: "build_file_path st base_dir ?pfs nm = Inr (st1, fp0)"
    and st': "st' = st1\<lparr>fsys := fs3,
               scripts_found := scripts_found st1 @
                 [\<lparr>rec_name = nm, rec_type = cls, rec_path = unique_path (fsys st1) fp0,
                   rec_service = s, rec_full_path = str_join ''/'' (s # ?pfs)\<rparr>]\<rparr>"
    by (auto simp: handle_script_def Let_def split: sum.splits prod.splits)
  note b' = build_file_path_result [OF b]
  from handle_script_result [OF assms] obtain r where
    r: "scripts_found st' = scripts_found st @ [r]"
    and f: "files (fsys st') = files (fsys st) @ [(rec_path r, source)]"
    by blast
  from r st' b' have "r = \<lparr>rec_name = nm, rec_type = cls, rec_path = unique_path (fsys st1) fp0,
                   rec_service = s, rec_full_path = str_join ''/'' (s # ?pfs)\<rparr>"
    by simp
  with b b' r f show ?thesis by auto
qed

subsection \<open>Paths\<close>

lemma prefixes_from_last: "prefixes_from acc xs \<noteq> [] \<and> last (prefixes_from acc xs) = acc @ xs"
  by (induction xs arbitrary: acc) auto

lemma prefixes_from_append:
  "prefixes_from acc (xs @ ys) = butlast (prefixes_from acc xs) @ prefixes_from (acc @ xs) ys"
proof (induction xs arbitrary: acc)
  case Nil
  show ?case by simp
next
  case (Cons c cs)
  have ne: "prefixes_from (acc @ [c]) cs \<noteq> []" by (simp add: prefixes_from_last)
  have IH: "prefixes_from (acc @ [c]) (cs @ ys)
      = butlast (prefixes_from (acc @ [c]) cs) @ prefixes_from ((acc @ [c]) @ cs) ys"
    by (rule Cons)
  show ?case
  proof (cases "c = CHR ''/'' \<and> acc \<noteq> []")
    case True
    then have "prefixes_from acc (c # zs) = acc # prefixes_from (acc @ [c]) zs" for zs
      by simp
    with IH ne show ?thesis by simp
  next
    case False
    then have "prefixes_from acc (c # zs) = prefixes_from (acc @ [c]) zs" for zs
      by auto
    with IH show ?thesis by simp
  qed
qed

lemma prefixes_from_segment: "CHR ''/'' \<notin> set c \<Longrightarrow> prefixes_from acc c = [acc @ c]"
  by (induction c arbitrary: acc) auto

lemma path_prefixes_snoc:
  assumes "a \<noteq> []" and "CHR ''/'' \<notin> set c"
  shows "path_prefixes (a @ ''/'' @ c) = path_prefixes a @ [a @ ''/'' @ c]"
proof -
  have "prefixes_from [] (a @ (CHR ''/'' # c))
      = butlast (prefixes_from [] a) @ prefixes_from ([] @ a) (CHR ''/'' # c)"
    by (rule prefixes_from_append)
  also have "prefixes_from ([] @ a) (CHR ''/'' # c) = a # [(a @ ''/'') @ c]"
    using assms by (simp add: prefixes_from_segment)
  also have "butlast (prefixes_from [] a) @ a # [(a @ ''/'') @ c]
      = (butlast (prefixes_from [] a) @ [last (prefixes_from [] a)]) @ [a @ ''/'' @ c]"
    by (simp add: prefixes_from_last)
  also have "butlast (prefixes_from [] a) @ [last (prefixes_from [] a)] = prefixes_from [] a"
    using prefixes_from_last [of "[]" a] by (metis append_butlast_last_id)
  finally show ?thesis by (simp add: path_prefixes_def)
qed

lemma self_in_path_prefixes: "p \<in> set (path_prefixes p)"
  using prefixes_from_last [of "[]" p] by (metis append_Nil last_in_set path_prefixes_def)

lemma join_segment:
  "good_dir a \<Longrightarrow> segment c \<Longrightarrow> join a (c # cs) = join (a @ ''/'' @ c) cs"
  by (cases c) (auto simp: good_dir_def segment_def)

lemma good_dir_snoc: "segment c \<Longrightarrow> good_dir (a @ ''/'' @ c)"
proof -
  assume c: "segment c"
  then have "last c \<noteq> CHR ''/''" by (metis segment_def last_in_set)
  with c show ?thesis by (simp add: good_dir_def segment_def)
qed

lemma inside_refl: "inside a a"
  by (simp add: inside_def)

lemma inside_snoc: "inside a (a @ ''/'' @ c)"
  by (simp add: inside_def)

lemma inside_trans: "inside a b \<Longrightarrow> inside b c \<Longrightarrow> inside a c"
proof -
  assume ab: "inside a b" and bc: "inside b c"
  show ?thesis
  proof (cases "b = a")
    case True
    with bc show ?thesis by simp
  next
    case False
    with ab have t: "take (Suc (length a)) b = a @ ''/''" by (simp add: inside_def)
    then have len: "Suc (length a) \<le> length b"
      by (metis length_append_singleton length_take min.cobounded1 min_def not_less_eq_eq Nil_is_append_conv append_Cons append_Nil)
    show ?thesis
    proof (cases "c = b")
      case True
      with ab show ?thesis by simp
    next
      case False
      with bc have "take (Suc (length b)) c = b @ ''/''" by (simp add: inside_def)
      then have "take (Suc (length a)) (take (Suc (length b)) c) = take (Suc (length a)) (b @ ''/'')"
        by simp
      with len t have "take (Suc (length a)) c = a @ ''/''"
        by (simp add: min_def)
      then show ?thesis by (simp add: inside_def)
    qed
  qed
qed

lemma path_prefixes_join:
  assumes "good_dir a" and "\<forall>c \<in> set cs. segment c"
  shows "good_dir (join a cs) \<and> inside a (join a cs)
       \<and> set (path_prefixes (join a cs)) \<subseteq> set (path_prefixes a) \<union> {d. inside a d}"
  using assms
proof (induction cs arbitrary: a)
  case Nil
  then show ?case by (auto simp: inside_refl)
next
  case (Cons c cs)
  from Cons.prems have c: "segment c" and cs: "\<forall>c \<in> set cs. segment c" by simp_all
  let ?a = "a @ ''/'' @ c"
  have j: "join a (c # cs) = join ?a cs" using Cons.prems(1) c by (rule join_segment)
  from Cons.IH [OF good_dir_snoc [OF c] cs]
  have g: "good_dir (join ?a cs)" and i: "inside ?a (join ?a cs)"
    and p: "set (path_prefixes (join ?a cs)) \<subseteq> set (path_prefixes ?a) \<union> {d. inside ?a d}"
    by blast+
  have pa: "set (path_prefixes ?a) = set (path_prefixes a) \<union> {?a}"
    using Cons.prems(1) c path_prefixes_snoc [of a c] by (simp add: good_dir_def segment_def)
  have up: "inside a d" if "inside ?a d" for d
    using inside_trans [OF inside_snoc that] .
  from g i p pa up show ?case
    unfolding j using inside_snoc [of a c] by auto
qed

lemma dirname_snoc:
  assumes "good_dir a" and "CHR ''/'' \<notin> set c"
  shows "dirname (a @ ''/'' @ c) = a"
proof -
  have "dropWhile (\<lambda>x. x \<noteq> CHR ''/'') (rev c @ CHR ''/'' # rev a)
      = dropWhile (\<lambda>x. x \<noteq> CHR ''/'') (CHR ''/'' # rev a)"
    by (rule dropWhile_append2) (use assms(2) in auto)
  then have "dropWhile (\<lambda>x. x \<noteq> CHR ''/'') (rev c @ CHR ''/'' # rev a) = CHR ''/'' # rev a"
    by simp
  then have head: "rev (dropWhile (\<lambda>x. x \<noteq> CHR ''/'') (rev (a @ ''/'' @ c))) = a @ ''/''"
    by simp
  from assms(1) have "last a \<in> set (a @ ''/'')" "last a \<noteq> CHR ''/''"
    by (auto simp: good_dir_def)
  then have "a @ ''/'' \<noteq> replicate (length (a @ ''/'')) CHR ''/''"
    by (metis in_set_replicate)
  moreover have "rev (dropWhile (\<lambda>x. x = CHR ''/'') (rev (a @ ''/''))) = a"
    using assms(1) by (cases "rev a") (auto simp: good_dir_def last_rev)
  ultimately show ?thesis
    unfolding dirname_def head Let_def by simp
qed

subsection \<open>The directories a script and a folder need\<close>

lemma digit_char_no_slash: "d < 10 \<Longrightarrow> digit_char d \<noteq> CHR ''/''"
  by (auto simp: digit_char_def numeral_eq_Suc less_Suc_eq)

lemma str_no_slash: "CHR ''/'' \<notin> set (str k)"
proof (induction k rule: str.induct)
  case (1 n)
  show ?case
  proof (cases "n < 10")
    case True
    then show ?thesis
      using digit_char_no_slash [of n] by (subst str.simps) auto
  next
    case False
    with 1 have "CHR ''/'' \<notin> set (str (n div 10))" by simp
    moreover have "digit_char (n mod 10) \<noteq> CHR ''/''" by (rule digit_char_no_slash) simp
    ultimately show ?thesis using False by (subst str.simps) auto
  qed
qed

lemma name_text_nonempty: "name_text e = Some n \<Longrightarrow> n \<noteq> []"
  by (auto simp: name_text_def truthy_text_def split: option.splits if_splits)

lemma item_name_nonempty: "item_name e = Some n \<Longrightarrow> n \<noteq> []"
  by (auto simp: item_name_def dest: name_text_nonempty split: if_splits)

lemma resolve_path_nonempty:
  "\<forall>x \<in> set path. x \<noteq> [] \<Longrightarrow> resolve bs path = (so, pth) \<Longrightarrow> \<forall>x \<in> set pth. x \<noteq> []"
proof (induction bs arbitrary: path)
  case Nil
  then show ?case by simp
next
  case (Cons b bs)
  show ?case
  proof (cases "item_name b")
    case None
    with Cons show ?thesis by simp
  next
    case (Some n)
    then have n: "n \<noteq> []" by (rule item_name_nonempty)
    show ?thesis
    proof (cases "n \<in> set service_names")
      case True
      with Some Cons.prems show ?thesis by auto
    next
      case False
      with Some Cons.prems(2) have "resolve bs (path @ [n]) = (so, pth)" by simp
      moreover from n Cons.prems(1) have "\<forall>x \<in> set (path @ [n]). x \<noteq> []" by simp
      ultimately show ?thesis by (rule Cons.IH [rotated])
    qed
  qed
qed

lemma segment_clean_name: "n \<noteq> [] \<Longrightarrow> segment (clean_name n)"
  using clean_name_no_slash [of n] length_clean_name [of n]
  by (auto simp: segment_def simp del: length_clean_name)

lemma rewrite_nonempty:
  "\<forall>x \<in> set pfs. x \<noteq> [] \<Longrightarrow> \<forall>x \<in> set (starter_player_rewrite s pfs). x \<noteq> []"
  by (auto simp: starter_player_rewrite_def dest: in_set_dropD)

lemma service_mapping_base:
  "map_of service_mapping s = Some base_dir \<Longrightarrow> base_dir \<in> set base_dirs"
  by (auto simp: service_mapping_def base_dirs_def split: if_splits)

lemma base_dir_good:
  "base_dir \<in> set base_dirs \<Longrightarrow>
     good_dir base_dir \<and> set (path_prefixes base_dir) = {''src'', base_dir}"
  by (auto simp: base_dirs_def good_dir_def path_prefixes_def)

lemma write_file_dirs: "write_file fs p c = Inr fs' \<Longrightarrow> dirs fs' = dirs fs"
  by (auto simp: write_file_def split: if_splits)

lemma join_lua:
  "good_dir d \<Longrightarrow> CHR ''/'' \<notin> set n \<Longrightarrow> join d [n @ ''.lua''] = d @ ''/'' @ n @ ''.lua''"
  by (cases n) (auto simp: good_dir_def)

lemma build_file_path_cases:
  assumes "build_file_path st base_dir pfs nm = Inr (st1, fp0)"
  shows "(pfs = [] \<and> st1 = st \<and> fp0 = join base_dir [clean_name nm @ ''.lua''])
       \<or> (pfs \<noteq> [] \<and> butlast pfs = [] \<and> st1 = st
            \<and> fp0 = join base_dir [clean_name (last pfs) @ ''.lua''])
       \<or> (butlast pfs \<noteq> []
            \<and> (\<exists>fs'. makedirs (fsys st) (join base_dir (map clean_name (butlast pfs))) = Inr fs'
                  \<and> st1 = st\<lparr>fsys := fs',
                                folder_structure := insert (dirname fp0) (folder_structure st)\<rparr>)
            \<and> fp0 = join (join base_dir (map clean_name (butlast pfs)))
                        [clean_name (last pfs) @ ''.lua''])"
proof (cases "pfs = []")
  case True
  with assms show ?thesis
    by (simp add: build_file_path_def del: join.simps)
next
  case False
  show ?thesis
  proof (cases "butlast pfs = []")
    case True
    with False assms show ?thesis
      by (simp add: build_file_path_def del: join.simps)
  next
    case nonempty: False
    show ?thesis
    proof (cases "makedirs (fsys st) (join base_dir (map clean_name (butlast pfs)))")
      case (Inl err)
      with False nonempty assms show ?thesis
        by (simp add: build_file_path_def Let_def del: join.simps)
    next
      case (Inr fs')
      with False nonempty assms show ?thesis
        by (simp add: build_file_path_def Let_def del: join.simps) blast
    qed
  qed
qed

lemma build_file_path_exact:
  assumes base: "good_dir base_dir" and pfs: "\<forall>x \<in> set pfs. x \<noteq> []"
    and b: "build_file_path st base_dir pfs nm = Inr (st1, fp0)"
  defines "d \<equiv> join base_dir (map clean_name (butlast pfs))"
  shows "\<exists>n. fp0 = d @ ''/'' @ n @ ''.lua'' \<and> CHR ''/'' \<notin> set n"
    and "good_dir d"
    and "set (dirs (fsys st)) \<subseteq> set (dirs (fsys st1))"
    and "set (dirs (fsys st1)) \<subseteq> set (dirs (fsys st)) \<union> set (path_prefixes d)"
proof -
  have segs: "\<forall>c \<in> set (map clean_name (butlast pfs)). segment c"
    using pfs by (auto dest: in_set_butlastD intro: segment_clean_name)
  from path_prefixes_join [OF base segs] show g: "good_dir d" by (simp add: d_def)
  note cases = build_file_path_cases [OF b, folded d_def]
  have lua: "join d [clean_name x @ ''.lua''] = d @ ''/'' @ clean_name x @ ''.lua''" for x
    using g clean_name_no_slash by (rule join_lua)
  have small: "d = base_dir" if "butlast pfs = []"
    using that by (simp add: d_def)
  from cases small have "fp0 = join d [clean_name nm @ ''.lua'']
      \<or> fp0 = join d [clean_name (last pfs) @ ''.lua'']"
    by (elim disjE) (simp_all del: join.simps)
  then have "fp0 = d @ ''/'' @ clean_name nm @ ''.lua''
      \<or> fp0 = d @ ''/'' @ clean_name (last pfs) @ ''.lua''"
    by (simp only: lua)
  then show "\<exists>n. fp0 = d @ ''/'' @ n @ ''.lua'' \<and> CHR ''/'' \<notin> set n"
    using clean_name_no_slash by blast
  show "set (dirs (fsys st)) \<subseteq> set (dirs (fsys st1))"
    using build_file_path_result [OF b] by simp
  from cases show "set (dirs (fsys st1)) \<subseteq> set (dirs (fsys st)) \<union> set (path_prefixes d)"
  proof (elim disjE conjE exE)
    fix fs'
    assume "makedirs (fsys st) d = Inr fs'"
      and "st1 = st\<lparr>fsys := fs', folder_structure := insert (dirname fp0) (folder_structure st)\<rparr>"
    with makedirs_result [of "fsys st" d fs'] show ?thesis by simp
  qed simp_all
qed

lemma take_stem:
  "take (length (d @ ''/'' @ n @ ''.lua'') - 4) (d @ ''/'' @ n @ ''.lua'') = d @ ''/'' @ n"
  by simp

lemma dirname_unique_path:
  assumes "good_dir d" and "CHR ''/'' \<notin> set n"
  shows "dirname (unique_path fs (d @ ''/'' @ n @ ''.lua'')) = d"
proof -
  let ?fp = "d @ ''/'' @ n @ ''.lua''"
  have plain: "dirname ?fp = d"
    using assms by (intro dirname_snoc) auto
  have suff: "dirname (suffixed (d @ ''/'' @ n) k) = d" for k
  proof -
    have eq: "suffixed (d @ ''/'' @ n) k = d @ ''/'' @ (n @ ''_'' @ str k @ ''.lua'')"
      by (simp add: suffixed_def)
    have "CHR ''/'' \<notin> set (n @ ''_'' @ str k @ ''.lua'')"
      using assms(2) str_no_slash by simp
    with assms(1) have "dirname (d @ ''/'' @ (n @ ''_'' @ str k @ ''.lua'')) = d"
      by (rule dirname_snoc)
    with eq show ?thesis by simp
  qed
  show ?thesis
  proof (cases "path_exists fs ?fp")
    case True
    then have "unique_path fs ?fp = suffixed (take (length ?fp - 4) ?fp) (first_free fs (take (length ?fp - 4) ?fp) 1)"
      by (simp only: unique_path_def Let_def if_True)
    then show ?thesis by (simp only: take_stem suff)
  next
    case False
    then have "unique_path fs ?fp = ?fp" by (rule unique_path_unsuffixed)
    with plain show ?thesis by simp
  qed
qed

lemma handle_script_dirs:
  assumes base: "good_dir base_dir" and pfs: "\<forall>x \<in> set pfs. x \<noteq> []"
    and h: "handle_script st base_dir s pfs nm cls source = Inr st'"
  defines "d \<equiv> join base_dir (map clean_name (butlast (starter_player_rewrite s pfs)))"
  shows "set (dirs (fsys st')) = set (dirs (fsys st)) \<union> set (path_prefixes d)"
    and "dirname (rec_path (last (scripts_found st'))) = d"
proof -
  let ?pfs = "starter_player_rewrite s pfs"
  from h obtain st1 fp0 fs2 fs3 where
    b: "build_file_path st base_dir ?pfs nm = Inr (st1, fp0)"
    and m: "makedirs (fsys st1) (dirname (unique_path (fsys st1) fp0)) = Inr fs2"
    and w: "write_file fs2 (unique_path (fsys st1) fp0) source = Inr fs3"
    and st': "st' = st1\<lparr>fsys := fs3,
               scripts_found := scripts_found st1 @
                 [\<lparr>rec_name = nm, rec_type = cls, rec_path = unique_path (fsys st1) fp0,
                   rec_service = s, rec_full_path = str_join ''/'' (s # ?pfs)\<rparr>]\<rparr>"
    by (auto simp: handle_script_def Let_def split: sum.splits prod.splits)
  note ex = build_file_path_exact [OF base rewrite_nonempty [OF pfs] b, folded d_def]
  from ex(1) obtain n where fp0: "fp0 = d @ ''/'' @ n @ ''.lua''" and n: "CHR ''/'' \<notin> set n"
    by blast
  have dn: "dirname (unique_path (fsys st1) fp0) = d"
    unfolding fp0 using ex(2) n by (rule dirname_unique_path)
  from makedirs_result [OF m] dn
  have "set (dirs fs2) = set (dirs (fsys st1)) \<union> set (path_prefixes d)" by simp
  moreover from write_file_dirs [OF w] have "dirs fs3 = dirs fs2" .
  ultimately show "set (dirs (fsys st')) = set (dirs (fsys st)) \<union> set (path_prefixes d)"
    using ex(3,4) st' by auto
  from st' dn show "dirname (rec_path (last (scripts_found st'))) = d" by simp
qed

lemma handle_folder_dirs:
  assumes "handle_folder st base_dir pfs = Inr st'"
  shows "set (dirs (fsys st'))
           = set (dirs (fsys st))
             \<union> (if pfs = [] then {} else set (path_prefixes (join base_dir (map clean_name pfs))))"
proof (cases "pfs = []")
  case True
  with assms show ?thesis by (simp add: handle_folder_def)
next
  case False
  let ?t = "join base_dir (map clean_name pfs)"
  from False assms obtain fs' where m: "makedirs (fsys st) ?t = Inr fs'"
    and st': "st' = st\<lparr>fsys := fs', folder_structure := insert ?t (folder_structure st)\<rparr>"
    by (cases "makedirs (fsys st) ?t") (simp_all add: handle_folder_def Let_def del: join.simps)
  from makedirs_result [OF m] st' False show ?thesis by simp
qed

lemma find_parent_service_nonempty:
  assumes "elem_at root p = Some e" and "find_parent_service (p, e) root = Some (so, pth)"
  shows "\<forall>x \<in> set pth. x \<noteq> []"
proof -
  from assms have "resolve (rev (below_root root p)) [] = (so, pth)"
    by (simp add: find_parent_service_resolve)
  then show ?thesis by (rule resolve_path_nonempty [rotated]) simp
qed

lemma process_item_cases:
  assumes at: "elem_at root p = Some e"
    and step: "process_item root st (p, e) = Some (Inr st')"
  shows "(item_target root (p, e) = None \<and> \<not> is_written_script root (p, e) \<and> st' = st)
       \<or> (\<exists>nm s pfs base_dir source.
             name_text e = Some nm \<and> find_parent_service (p, e) root = Some (Some s, pfs)
             \<and> map_of service_mapping s = Some base_dir
             \<and> get e ''class'' \<in> Some ` set script_classes \<and> source_text e = Some source
             \<and> is_written_script root (p, e)
             \<and> item_target root (p, e)
                 = Some (join base_dir (map clean_name (butlast (starter_player_rewrite s pfs))))
             \<and> handle_script st base_dir s pfs nm (get e ''class'') source = Inr st')
       \<or> (\<exists>s pfs base_dir.
             find_parent_service (p, e) root = Some (Some s, pfs)
             \<and> map_of service_mapping s = Some base_dir
             \<and> \<not> is_written_script root (p, e)
             \<and> item_target root (p, e)
                 = (if pfs = [] then None else Some (join base_dir (map clean_name pfs)))
             \<and> handle_folder st base_dir pfs = Inr st')"
proof (cases "name_text e")
  case None
  with step show ?thesis
    by (simp add: process_item_def item_target_def is_written_script_def)
next
  case (Some nm)
  note fps = find_parent_service_resolve [OF at]
  obtain so pth where res: "resolve (rev (below_root root p)) [] = (so, pth)"
    by (cases "resolve (rev (below_root root p)) []") auto
  show ?thesis
  proof (cases so)
    case None
    with step Some res fps show ?thesis
      by (simp add: process_item_def item_target_def is_written_script_def)
  next
    case (Some s)
    with res have "s \<in> set service_names" by (auto dest: resolve_service_name)
    from service_mapping_total [OF this] obtain base_dir where
      s: "s \<noteq> []" and base: "map_of service_mapping s = Some base_dir" by blast
    have fps': "find_parent_service (p, e) root = Some (Some s, pth)"
      using fps res Some by simp
    note known = \<open>name_text e = Some nm\<close> fps' s base
    show ?thesis
    proof (cases "get e ''class'' \<in> Some ` set script_classes")
      case script: True
      show ?thesis
      proof (cases "source_text e")
        case None
        with step known script show ?thesis
          by (simp add: process_item_def item_target_def is_written_script_def del: join.simps)
      next
        case (Some source)
        with step known script
        have "handle_script st base_dir s pth nm (get e ''class'') source = Inr st'"
          by (simp add: process_item_def)
        moreover have "is_written_script root (p, e)"
          using known Some script by (simp add: is_written_script_def)
        moreover have "item_target root (p, e)
            = Some (join base_dir (map clean_name (butlast (starter_player_rewrite s pth))))"
          using known Some script by (simp add: item_target_def del: join.simps)
        ultimately show ?thesis using known Some script by blast
      qed
    next
      case other: False
      then have nw: "\<not> is_written_script root (p, e)" by (simp add: is_written_script_def)
      show ?thesis
      proof (cases "get e ''class'' = Some ''Folder''")
        case True
        with step known other have "handle_folder st base_dir pth = Inr st'"
          by (simp add: process_item_def)
        moreover have "item_target root (p, e)
            = (if pth = [] then None else Some (join base_dir (map clean_name pth)))"
          using known other True by (simp add: item_target_def del: join.simps)
        ultimately show ?thesis using known nw by blast
      next
        case False
        with step known other have "st' = st" by (simp add: process_item_def)
        moreover have "item_target root (p, e) = None"
          using known other False by (simp add: item_target_def del: join.simps)
        ultimately show ?thesis using nw by blast
      qed
    qed
  qed
qed

lemma process_item_dirs:
  assumes at: "elem_at root p = Some e"
    and step: "process_item root st (p, e) = Some (Inr st')"
  shows "set (dirs (fsys st'))
           = set (dirs (fsys st))
             \<union> (case item_target root (p, e) of None \<Rightarrow> {} | Some t \<Rightarrow> set (path_prefixes t))"
    and "is_written_script root (p, e) \<Longrightarrow>
           item_target root (p, e) = Some (dirname (rec_path (last (scripts_found st'))))"
proof -
  from process_item_cases [OF at step]
  have "set (dirs (fsys st'))
           = set (dirs (fsys st))
             \<union> (case item_target root (p, e) of None \<Rightarrow> {} | Some t \<Rightarrow> set (path_prefixes t))
        \<and> (is_written_script root (p, e) \<longrightarrow>
              item_target root (p, e) = Some (dirname (rec_path (last (scripts_found st')))))"
  proof (elim disjE exE conjE)
    assume "item_target root (p, e) = None" "\<not> is_written_script root (p, e)" "st' = st"
    then show ?thesis by simp
  next
    fix nm s pfs base_dir source
    assume fps: "find_parent_service (p, e) root = Some (Some s, pfs)"
      and base: "map_of service_mapping s = Some base_dir"
      and t: "item_target root (p, e)
                 = Some (join base_dir (map clean_name (butlast (starter_player_rewrite s pfs))))"
      and h: "handle_script st base_dir s pfs nm (get e ''class'') source = Inr st'"
    from base_dir_good [OF service_mapping_base [OF base]] have g: "good_dir base_dir" by simp
    note ne = find_parent_service_nonempty [OF at fps]
    from handle_script_dirs [OF g ne h] t show ?thesis by simp
  next
    fix s pfs base_dir
    assume nw: "\<not> is_written_script root (p, e)"
      and t: "item_target root (p, e)
                 = (if pfs = [] then None else Some (join base_dir (map clean_name pfs)))"
      and h: "handle_folder st base_dir pfs = Inr st'"
    from handle_folder_dirs [OF h] t nw show ?thesis by simp
  qed
  then show "set (dirs (fsys st'))
           = set (dirs (fsys st))
             \<union> (case item_target root (p, e) of None \<Rightarrow> {} | Some t \<Rightarrow> set (path_prefixes t))"
    and "is_written_script root (p, e) \<Longrightarrow>
           item_target root (p, e) = Some (dirname (rec_path (last (scripts_found st'))))"
    by blast+
qed

subsection \<open>The directories a run creates\<close>

lemma map_filter_Cons:
  "List.map_filter f (x # xs) = (case f x of None \<Rightarrow> List.map_filter f xs | Some y \<Rightarrow> y # List.map_filter f xs)"
  by (simp add: List.map_filter_def split: option.splits)

lemma process_items_dirs:
  assumes "process_items root st items = Some (Inr st')"
    and "\<forall>(p, e) \<in> set items. elem_at root p = Some e"
  shows "set (dirs (fsys st'))
           = set (dirs (fsys st))
             \<union> (\<Union>t \<in> set (List.map_filter (item_target root) items). set (path_prefixes t))"
  using assms
proof (induction items arbitrary: st)
  case Nil
  then show ?case by (simp add: List.map_filter_def)
next
  case (Cons item items)
  obtain p e where item: "item = (p, e)" by (cases item)
  from Cons.prems(2) item have at: "elem_at root p = Some e" by simp
  from Cons.prems(1) obtain st1 where
    step: "process_item root st (p, e) = Some (Inr st1)"
    and rest: "process_items root st1 items = Some (Inr st')"
    by (auto simp: item split: option.splits sum.splits)
  from Cons.prems(2) have valid: "\<forall>(p, e) \<in> set items. elem_at root p = Some e" by simp
  note IH = Cons.IH [OF rest valid]
  note s = process_item_dirs(1) [OF at step]
  show ?case
    unfolding IH s item map_filter_Cons by (cases "item_target root (p, e)") auto
qed

lemma process_items_targets:
  assumes "process_items root st items = Some (Inr st')"
    and "\<forall>(p, e) \<in> set items. elem_at root p = Some e"
  shows "\<exists>recs. scripts_found st' = scripts_found st @ recs
           \<and> map (\<lambda>r. Some (dirname (rec_path r))) recs
               = map (item_target root) (filter (is_written_script root) items)"
  using assms
proof (induction items arbitrary: st)
  case Nil
  then show ?case by simp
next
  case (Cons item items)
  obtain p e where item: "item = (p, e)" by (cases item)
  from Cons.prems(2) item have at: "elem_at root p = Some e" by simp
  from Cons.prems(1) obtain st1 where
    step: "process_item root st (p, e) = Some (Inr st1)"
    and rest: "process_items root st1 items = Some (Inr st')"
    by (auto simp: item split: option.splits sum.splits)
  from Cons.prems(2) have valid: "\<forall>(p, e) \<in> set items. elem_at root p = Some e" by simp
  from Cons.IH [OF rest valid] obtain recs where
    sf: "scripts_found st' = scripts_found st1 @ recs"
    and tg: "map (\<lambda>r. Some (dirname (rec_path r))) recs
               = map (item_target root) (filter (is_written_script root) items)"
    by blast
  note s = process_item_step [OF at step]
  show ?case
  proof (cases "is_written_script root (p, e)")
    case True
    with s obtain r where sf1: "scripts_found st1 = scripts_found st @ [r]" by auto
    from process_item_dirs(2) [OF at step True] sf1
    have "item_target root (p, e) = Some (dirname (rec_path r))" by simp
    with True item sf sf1 tg
    have "scripts_found st' = scripts_found st @ (r # recs)
        \<and> map (\<lambda>r. Some (dirname (rec_path r))) (r # recs)
            = map (item_target root) (filter (is_written_script root) (item # items))"
      by simp
    then show ?thesis by blast
  next
    case False
    with s have "scripts_found st1 = scripts_found st" by simp
    with False item sf tg show ?thesis by simp
  qed
qed

lemma item_target_form:
  assumes at: "elem_at root p = Some e" and t: "item_target root (p, e) = Some t"
  shows "\<exists>base_dir cs. base_dir \<in> set base_dirs \<and> (\<forall>c \<in> set cs. segment c) \<and> t = join base_dir cs"
proof -
  from t obtain nm s pfs base_dir where
    fps: "find_parent_service (p, e) root = Some (Some s, pfs)"
    and base: "map_of service_mapping s = Some base_dir"
    and form: "t = join base_dir (map clean_name (butlast (starter_player_rewrite s pfs)))
             \<or> t = join base_dir (map clean_name pfs)"
    by (auto simp: item_target_def simp del: join.simps split: option.splits if_splits)
  note ne = find_parent_service_nonempty [OF at fps]
  have "\<forall>c \<in> set (map clean_name pfs). segment c"
    using ne by (auto intro: segment_clean_name)
  moreover have "\<forall>c \<in> set (map clean_name (butlast (starter_player_rewrite s pfs))). segment c"
    using rewrite_nonempty [OF ne, of s] by (auto dest: in_set_butlastD intro: segment_clean_name)
  ultimately show ?thesis
    using form service_mapping_base [OF base] by blast
qed

lemma path_prefixes_join_base:
  assumes "good_dir a" and "\<forall>c \<in> set cs. segment c"
  shows "set (path_prefixes a) \<subseteq> set (path_prefixes (join a cs))"
  using assms
proof (induction cs arbitrary: a)
  case Nil
  then show ?case by simp
next
  case (Cons c cs)
  from Cons.prems have c: "segment c" and cs: "\<forall>c \<in> set cs. segment c" by simp_all
  let ?a = "a @ ''/'' @ c"
  have j: "join a (c # cs) = join ?a cs" using Cons.prems(1) c by (rule join_segment)
  have "path_prefixes ?a = path_prefixes a @ [?a]"
    using Cons.prems(1) c by (intro path_prefixes_snoc) (simp_all add: good_dir_def segment_def)
  then have "set (path_prefixes a) \<subseteq> set (path_prefixes ?a)"
    by (simp only: set_append) blast
  also have "\<dots> \<subseteq> set (path_prefixes (join ?a cs))"
    by (rule Cons.IH [OF good_dir_snoc [OF c] cs])
  finally show ?case unfolding j .
qed

lemma first_level_inside_base:
  assumes "base_dir \<in> set base_dirs" and "first_level d" and "inside base_dir d"
  shows "d = base_dir"
proof (rule ccontr)
  assume "d \<noteq> base_dir"
  with assms(3) have "take (Suc (length base_dir)) d = base_dir @ ''/''" by (simp add: inside_def)
  then have "d = (base_dir @ ''/'') @ drop (Suc (length base_dir)) d"
    by (metis append_take_drop_id)
  then obtain r where "d = base_dir @ ''/'' @ r" by simp
  with assms(1,2) show False
    by (auto simp: base_dirs_def first_level_def segment_def)
qed

lemma first_level_not_src: "first_level d \<Longrightarrow> d \<noteq> ''src'' \<and> inside ''src'' d"
proof -
  assume "first_level d"
  then have t: "take 4 d = ''src/''" by (simp add: first_level_def)
  then have "d \<noteq> ''src''" by auto
  moreover have "Suc (length ''src'') = 4" by simp
  with t have "inside ''src'' d" by (simp only: inside_def) simp
  ultimately show ?thesis by simp
qed

lemma workspace_inside_base:
  "base_dir \<in> set base_dirs \<Longrightarrow> inside base_dir ''src/workspace'' \<Longrightarrow> base_dir = ''src/workspace''"
  by (auto simp: base_dirs_def inside_def)

lemma base_inside_workspace:
  assumes "base_dir \<in> set base_dirs" and "inside base_dir t" and "inside ''src/workspace'' t"
  shows "base_dir = ''src/workspace''"
proof (cases "t = ''src/workspace''")
  case True
  with assms(1,2) show ?thesis by (simp add: workspace_inside_base)
next
  case False
  with assms(3) have "take (Suc (length ''src/workspace'')) t = ''src/workspace'' @ ''/''"
    by (simp only: inside_def) simp
  then have "t = (''src/workspace'' @ ''/'') @ drop (Suc (length ''src/workspace'')) t"
    by (metis append_take_drop_id)
  then obtain r where "t = ''src/workspace/'' @ r" by simp
  with assms(1,2) show ?thesis
    by (auto simp: base_dirs_def inside_def)
qed

lemma set_map_filter: "set (List.map_filter f xs) = {y. \<exists>x \<in> set xs. f x = Some y}"
  by (auto simp: List.map_filter_def) force

lemma demanded_dirs_item:
  "t \<in> set (demanded_dirs root) \<longleftrightarrow>
     (\<exists>p e. elem_at root p = Some e \<and> tag e = ''Item'' \<and> item_target root (p, e) = Some t)"
  by (auto simp: demanded_dirs_def set_map_filter iter_tag_def set_iter)

lemma prepare_output_dirs:
  assumes "prepare_output fs0 = Inr fs1" and "src_consistent fs0"
  shows "set (dirs fs1)
           = {d \<in> set (dirs fs0). \<not> inside ''src'' d}
             \<union> {''src'', ''src/server'', ''src/client'', ''src/shared''}"
proof -
  define fsc where "fsc = (if path_exists fs0 ''src''
      then \<lparr>dirs = filter (\<lambda>p. \<not> inside ''src'' p) (dirs fs0),
            files = filter (\<lambda>(p, c). \<not> inside ''src'' p) (files fs0)\<rparr>
      else fs0)"
  from assms(1) obtain fa fb where
    a: "makedirs fsc ''src/server'' = Inr fa"
    and b: "makedirs fa ''src/client'' = Inr fb"
    and c: "makedirs fb ''src/shared'' = Inr fs1"
    by (auto simp: prepare_output_def rmtree_def fsc_def split: if_splits sum.splits)
  have clean: "set (dirs fsc) = {d \<in> set (dirs fs0). \<not> inside ''src'' d}"
    using assms(2) by (auto simp: fsc_def src_consistent_def list_all_iff)
  have p: "set (path_prefixes ''src/server'') = {''src'', ''src/server''}"
    "set (path_prefixes ''src/client'') = {''src'', ''src/client''}"
    "set (path_prefixes ''src/shared'') = {''src'', ''src/shared''}"
    by (simp_all add: path_prefixes_def)
  from makedirs_result [OF a] makedirs_result [OF b] makedirs_result [OF c] clean
  show ?thesis unfolding p by auto
qed

lemma process_item_other_class:
  assumes "elem_at root p = Some e"
    and "get e ''class'' \<notin> Some ` set script_classes" and "get e ''class'' \<noteq> Some ''Folder''"
  shows "process_item root st (p, e) = Some (Inr st) \<and> item_target root (p, e) = None"
  using assms(2,3)
  by (simp add: process_item_def item_target_def Let_def find_parent_service_resolve [OF assms(1)]
      split: option.splits prod.splits)

subsection \<open>The step of the loop for a script that is written\<close>

lemma process_items_split:
  assumes "process_items root st0 (before @ item # after) = Some (Inr st)"
  shows "\<exists>st_b st_i. process_items root st0 before = Some (Inr st_b)
           \<and> process_item root st_b item = Some (Inr st_i)
           \<and> process_items root st_i after = Some (Inr st)"
  using assms by (auto simp: process_items_append split: option.splits sum.splits)

lemma filter_nth_split:
  "i < length (filter P xs) \<Longrightarrow>
     \<exists>before after. xs = before @ (filter P xs ! i) # after
        \<and> length (filter P before) = i \<and> P (filter P xs ! i)"
proof (induction xs arbitrary: i)
  case Nil
  then show ?case by simp
next
  case (Cons x xs)
  show ?case
  proof (cases "P x")
    case False
    with Cons.prems have "i < length (filter P xs)" by simp
    from Cons.IH [OF this] obtain before after where
      "xs = before @ (filter P xs ! i) # after" "length (filter P before) = i"
      "P (filter P xs ! i)"
      by blast
    with False have "x # xs = (x # before) @ (filter P (x # xs) ! i) # after
        \<and> length (filter P (x # before)) = i \<and> P (filter P (x # xs) ! i)"
      by simp
    then show ?thesis by blast
  next
    case True
    show ?thesis
    proof (cases i)
      case 0
      with True have "x # xs = [] @ (filter P (x # xs) ! i) # xs
          \<and> length (filter P []) = i \<and> P (filter P (x # xs) ! i)"
        by simp
      then show ?thesis by blast
    next
      case (Suc j)
      with True Cons.prems have "j < length (filter P xs)" by simp
      from Cons.IH [OF this] obtain before after where
        "xs = before @ (filter P xs ! j) # after" "length (filter P before) = j"
        "P (filter P xs ! j)"
        by blast
      with True Suc have "x # xs = (x # before) @ (filter P (x # xs) ! i) # after
          \<and> length (filter P (x # before)) = i \<and> P (filter P (x # xs) ! i)"
        by simp
      then show ?thesis by blast
    qed
  qed
qed

lemma resolve_last:
  "resolve bs path = (so, pth) \<Longrightarrow> path \<noteq> [] \<Longrightarrow> pth \<noteq> [] \<Longrightarrow> last pth = hd path"
proof (induction bs arbitrary: path)
  case Nil
  then show ?case by simp
next
  case (Cons b bs)
  show ?case
  proof (cases "item_name b")
    case None
    with Cons show ?thesis by simp
  next
    case (Some n)
    show ?thesis
    proof (cases "n \<in> set service_names")
      case True
      with Some Cons.prems show ?thesis by (auto simp: last_rev)
    next
      case False
      with Some Cons.prems(1) have "resolve bs (path @ [n]) = (so, pth)" by simp
      from Cons.IH [OF this _ Cons.prems(3)] Cons.prems(2) show ?thesis by simp
    qed
  qed
qed

lemma find_parent_service_last:
  assumes at: "elem_at root p = Some e" and tagged: "tag e = ''Item''"
    and nm: "name_text e = Some nm"
    and fps: "find_parent_service (p, e) root = Some (so, pfs)" and ne: "pfs \<noteq> []"
  shows "last pfs = nm"
proof -
  from fps have res: "resolve (rev (below_root root p)) [] = (so, pfs)"
    by (simp add: find_parent_service_resolve [OF at])
  have p: "p \<noteq> []"
  proof
    assume "p = []"
    with res ne show False by simp
  qed
  from last_below_root [OF at p] have "last (below_root root p) = e" .
  moreover from p length_below_root [OF at] have "below_root root p \<noteq> []"
    by (auto simp del: below_root.simps)
  ultimately have "below_root root p = butlast (below_root root p) @ [e]"
    by (metis append_butlast_last_id)
  then have "rev (below_root root p) = e # rev (butlast (below_root root p))"
    by (metis rev.simps(2) rev_rev_ident rev_swap)
  with res have r: "resolve (e # rev (butlast (below_root root p))) [] = (so, pfs)" by simp
  have iname: "item_name e = Some nm" using tagged nm by (simp add: item_name_def)
  show ?thesis
  proof (cases "nm \<in> set service_names")
    case True
    with r iname ne show ?thesis by simp
  next
    case False
    with r iname have "resolve (rev (butlast (below_root root p))) [nm] = (so, pfs)" by simp
    from resolve_last [OF this _ ne] show ?thesis by simp
  qed
qed

lemma iter_tag_tagged: "\<forall>(p, e) \<in> set (iter_tag root t). tag e = t"
  by (auto simp: iter_tag_def)

lemma rewrite_last:
  "starter_player_rewrite s pfs \<noteq> [] \<Longrightarrow> last (starter_player_rewrite s pfs) = last pfs"
  by (cases pfs) (auto simp: starter_player_rewrite_def split: if_splits)

lemma rewrite_empty:
  "pfs = [] \<Longrightarrow> starter_player_rewrite s pfs = []"
  by (simp add: starter_player_rewrite_def)

lemma build_file_path_name:
  assumes base: "good_dir base_dir" and pfs: "\<forall>x \<in> set pfs. x \<noteq> []"
    and b: "build_file_path st base_dir pfs nm = Inr (st1, fp0)"
    and l: "pfs \<noteq> [] \<Longrightarrow> last pfs = nm"
  shows "fp0 = join base_dir (map clean_name (butlast pfs)) @ ''/'' @ clean_name nm @ ''.lua''"
proof -
  define d where "d = join base_dir (map clean_name (butlast pfs))"
  have segs: "\<forall>c \<in> set (map clean_name (butlast pfs)). segment c"
    using pfs by (auto dest: in_set_butlastD intro: segment_clean_name)
  from path_prefixes_join [OF base segs] have g: "good_dir d" by (simp add: d_def)
  note cases = build_file_path_cases [OF b, folded d_def]
  have lua: "join d [clean_name x @ ''.lua''] = d @ ''/'' @ clean_name x @ ''.lua''" for x
    using g clean_name_no_slash by (rule join_lua)
  have small: "d = base_dir" if "butlast pfs = []"
    using that by (simp add: d_def)
  have l': "last pfs = nm" if "butlast pfs \<noteq> []"
    using that l by (cases pfs) auto
  from cases small l l' have "fp0 = join d [clean_name nm @ ''.lua'']"
    by (elim disjE) (auto simp del: join.simps)
  then have "fp0 = d @ ''/'' @ clean_name nm @ ''.lua''" by (simp only: lua)
  then show ?thesis unfolding d_def .
qed

lemma map_fst_zip_eq: "length xs = length ys \<Longrightarrow> map fst (zip xs ys) = xs"
  by (induction xs ys rule: list_induct2) simp_all

lemma written_script_step:
  assumes run: "process_items root st0 (before @ (p, e) # after) = Some (Inr st)"
    and valid: "\<forall>(p, e) \<in> set (before @ (p, e) # after). elem_at root p = Some e"
    and tagged: "tag e = ''Item''"
    and w: "is_written_script root (p, e)"
    and empty: "scripts_found st0 = []"
  defines "i \<equiv> length (filter (is_written_script root) before)"
  shows "\<exists>st_b st1 nm s pfs base_dir fp0.
           process_items root st0 before = Some (Inr st_b)
         \<and> name_text e = Some nm \<and> find_parent_service (p, e) root = Some (Some s, pfs)
         \<and> map_of service_mapping s = Some base_dir
         \<and> build_file_path st_b base_dir (starter_player_rewrite s pfs) nm = Inr (st1, fp0)
         \<and> fp0 = join base_dir (map clean_name (butlast (starter_player_rewrite s pfs)))
                   @ ''/'' @ clean_name nm @ ''.lua''
         \<and> map fst (files (fsys st1))
             = map fst (files (fsys st0)) @ map rec_path (take i (scripts_found st))
         \<and> i < length (scripts_found st)
         \<and> rec_path (scripts_found st ! i) = unique_path (fsys st1) fp0"
proof -
  from process_items_split [OF run] obtain st_b st_i where
    rb: "process_items root st0 before = Some (Inr st_b)"
    and step: "process_item root st_b (p, e) = Some (Inr st_i)"
    and ra: "process_items root st_i after = Some (Inr st)"
    by blast
  from valid have vb: "\<forall>(p, e) \<in> set before. elem_at root p = Some e"
    and at: "elem_at root p = Some e"
    and va: "\<forall>(p, e) \<in> set after. elem_at root p = Some e"
    by auto
  from process_items_result [OF rb vb] empty obtain recs_b where
    sb: "scripts_found st_b = recs_b"
    and lb: "length recs_b = i"
    and fb: "files (fsys st_b)
               = files (fsys st0)
                 @ zip (map rec_path recs_b) (map source_of (filter (is_written_script root) before))"
    by (auto simp: i_def)
  from process_items_result [OF ra va] obtain recs_a where
    sa: "scripts_found st = scripts_found st_i @ recs_a"
    by blast
  from process_item_cases [OF at step] w obtain nm s pfs base_dir source where
    nm: "name_text e = Some nm"
    and fps: "find_parent_service (p, e) root = Some (Some s, pfs)"
    and base: "map_of service_mapping s = Some base_dir"
    and h: "handle_script st_b base_dir s pfs nm (get e ''class'') source = Inr st_i"
    by blast
  from handle_script_path [OF h] obtain st1 fp0 where
    b: "build_file_path st_b base_dir (starter_player_rewrite s pfs) nm = Inr (st1, fp0)"
    and f1: "files (fsys st1) = files (fsys st_b)"
    and si: "scripts_found st_i = scripts_found st_b
               @ [\<lparr>rec_name = nm, rec_type = get e ''class'',
                   rec_path = unique_path (fsys st1) fp0, rec_service = s,
                   rec_full_path = str_join ''/'' (s # starter_player_rewrite s pfs)\<rparr>]"
    by blast
  from base_dir_good [OF service_mapping_base [OF base]] have g: "good_dir base_dir" by simp
  note ne = find_parent_service_nonempty [OF at fps]
  have l: "last (starter_player_rewrite s pfs) = nm" if "starter_player_rewrite s pfs \<noteq> []"
  proof -
    from that have "pfs \<noteq> []" using rewrite_empty by blast
    from find_parent_service_last [OF at tagged nm fps this] rewrite_last [OF that]
    show ?thesis by simp
  qed
  note fp0 = build_file_path_name [OF g rewrite_nonempty [OF ne] b l]
  have len: "length (map rec_path recs_b)
      = length (map source_of (filter (is_written_script root) before))"
    using lb by (simp add: i_def)
  have tk: "take i (scripts_found st) = recs_b"
    using sa si sb lb by simp
  have files1: "map fst (files (fsys st1))
      = map fst (files (fsys st0)) @ map rec_path (take i (scripts_found st))"
    unfolding f1 fb tk using map_fst_zip_eq [OF len] by simp
  have idx: "i < length (scripts_found st)"
    using sa si sb lb by simp
  have nth: "rec_path (scripts_found st ! i) = unique_path (fsys st1) fp0"
    using sa si sb lb by (simp add: nth_append)
  from rb nm fps base b fp0 files1 idx nth show ?thesis by blast
qed

lemma written_script_target:
  assumes "is_written_script root item"
    and "find_parent_service item root = Some (Some s, pfs)"
    and "map_of service_mapping s = Some base_dir"
  shows "item_target root item
           = Some (join base_dir (map clean_name (butlast (starter_player_rewrite s pfs))))"
  using assms
  by (auto simp: item_target_def is_written_script_def simp del: join.simps split: option.splits)

lemma unique_path_form:
  "unique_path fs (stem @ ''.lua'') = stem @ ''.lua''
   \<or> (\<exists>k\<ge>1. unique_path fs (stem @ ''.lua'') = suffixed stem k)"
proof (cases "path_exists fs (stem @ ''.lua'')")
  case False
  then show ?thesis by (simp add: unique_path_unsuffixed)
next
  case True
  from unique_path_suffixed [OF this] show ?thesis by auto
qed

lemma written_script_file:
  assumes run: "process_items root st0 (iter_tag root ''Item'') = Some (Inr st)"
    and empty: "scripts_found st0 = []"
    and i: "i < length (script_nodes root)"
    and fps: "find_parent_service (script_nodes root ! i) root = Some (Some s, pfs)"
    and base: "map_of service_mapping s = Some base_dir"
  defines "d \<equiv> join base_dir (map clean_name (butlast (starter_player_rewrite s pfs)))"
  defines "stem \<equiv> d @ ''/'' @ clean_name (name_of (script_nodes root ! i))"
  shows "d \<in> set (dirs (fsys st))"
    and "rec_path (scripts_found st ! i)
           = d @ ''/'' @ clean_name (name_of (script_nodes root ! i)) @ ''.lua''
         \<or> (\<exists>k\<ge>1. rec_path (scripts_found st ! i) = suffixed stem k)"
    and "map_of (files (fsys st)) (rec_path (scripts_found st ! i))
           = Some (source_of (script_nodes root ! i))"
proof -
  let ?items = "iter_tag root ''Item''"
  let ?W = "is_written_script root"
  obtain p e where item: "script_nodes root ! i = (p, e)" by (cases "script_nodes root ! i")
  from i have i': "i < length (filter ?W ?items)" by (simp add: script_nodes_def)
  from filter_nth_split [OF i'] item obtain before after where
    split: "?items = before @ (p, e) # after"
    and len: "length (filter ?W before) = i"
    and w: "?W (p, e)"
    by (auto simp: script_nodes_def)
  have mem: "(p, e) \<in> set ?items" by (simp add: split)
  with iter_tag_tagged [of root "''Item''"] have tagged: "tag e = ''Item''" by auto
  from iter_tag_valid [of root "''Item''"]
  have valid: "\<forall>(p, e) \<in> set (before @ (p, e) # after). elem_at root p = Some e"
    by (simp only: split)
  from run have run': "process_items root st0 (before @ (p, e) # after) = Some (Inr st)"
    by (simp only: split)
  from written_script_step [OF run' valid tagged w empty]
  obtain st1 :: state and nm s' pfs' base_dir' fp0 where
    nm: "name_text e = Some nm"
    and fps': "find_parent_service (p, e) root = Some (Some s', pfs')"
    and base': "map_of service_mapping s' = Some base_dir'"
    and fp0: "fp0 = join base_dir' (map clean_name (butlast (starter_player_rewrite s' pfs')))
                   @ ''/'' @ clean_name nm @ ''.lua''"
    and nth: "rec_path (scripts_found st ! length (filter ?W before)) = unique_path (fsys st1) fp0"
    by blast
  from fps fps' item have same: "s' = s" "pfs' = pfs" by simp_all
  with base base' have "base_dir' = base_dir" by simp
  with same fp0 nth len
  have path: "rec_path (scripts_found st ! i)
                 = unique_path (fsys st1) (d @ ''/'' @ clean_name nm @ ''.lua'')"
    by (simp add: d_def)
  from nm item have "name_of (script_nodes root ! i) = nm" by (simp add: name_of_def)
  with path have "rec_path (scripts_found st ! i) = unique_path (fsys st1) (stem @ ''.lua'')"
    by (simp add: stem_def)
  with unique_path_form [of "fsys st1" stem]
  show "rec_path (scripts_found st ! i)
           = d @ ''/'' @ clean_name (name_of (script_nodes root ! i)) @ ''.lua''
         \<or> (\<exists>k\<ge>1. rec_path (scripts_found st ! i) = suffixed stem k)"
    by (simp add: stem_def)
  from w fps base item have "item_target root (p, e) = Some d"
    by (simp add: written_script_target d_def)
  with mem have "d \<in> set (List.map_filter (item_target root) ?items)"
    by (auto simp: set_map_filter)
  with process_items_dirs [OF run iter_tag_valid] self_in_path_prefixes [of d]
  show "d \<in> set (dirs (fsys st))" by blast
  from run_content [OF run iter_tag_valid empty i']
  show "map_of (files (fsys st)) (rec_path (scripts_found st ! i))
           = Some (source_of (script_nodes root ! i))"
    by (simp add: script_nodes_def)
qed

lemma client_base: "map_of service_mapping ''StarterPlayer'' = Some ''src/client''"
  by (simp add: service_mapping_def)

subsection \<open>Duplicate file names in a run\<close>

text \<open>
  Claim C3, as the code has it. In a run that completes, on a tree without an item
  named \<^verbatim>\<open>.\<close> or \<^verbatim>\<open>..\<close>, the written files have pairwise distinct paths, in the order
  of the traversal, and no file is overwritten: every file is written where nothing
  existed when the loop started. For every item of the traversal that is a script with
  a name, a service and a source text, take the state in which the loop reaches the
  item, with the folder of the script created. The files that exist in that state are
  those from before the loop and those of the scripts written earlier in the run. The
  path computed for the script is the directory of its rewritten path, its cleaned name
  and \<^verbatim>\<open>.lua\<close>. The script is written to that path when nothing exists there in that
  state; otherwise it is written to the computed path with \<open>_k\<close> before the extension,
  for the least \<open>k \<ge> 1\<close> for which nothing exists in that state, whatever took the
  smaller names.
\<close>

theorem collisions_resolved_by_suffix:
  assumes "prepare_output fs0 = Inr fs1"
    and "extract_scripts_with_structure fs0 root = Some (Inr st)"
    and "plain_names root"
  shows "distinct (map rec_path (scripts_found st))
       \<and> map rec_name (scripts_found st) = map name_of (script_nodes root)
       \<and> files (fsys st)
           = files fs1 @ zip (map rec_path (scripts_found st)) (map source_of (script_nodes root))
       \<and> (\<forall>r \<in> set (scripts_found st). \<not> path_exists fs1 (rec_path r))
       \<and> (\<forall>before p e after.
             iter_tag root ''Item'' = before @ (p, e) # after \<longrightarrow>
             is_written_script root (p, e) \<longrightarrow>
             (\<exists>st_b st1 nm s pfs base_dir fp0.
                process_items root \<lparr>fsys = fs1, scripts_found = [], folder_structure = {}\<rparr> before
                  = Some (Inr st_b)
                \<and> name_text e = Some nm
                \<and> find_parent_service (p, e) root = Some (Some s, pfs)
                \<and> map_of service_mapping s = Some base_dir
                \<and> build_file_path st_b base_dir (starter_player_rewrite s pfs) nm = Inr (st1, fp0)
                \<and> fp0 = join base_dir (map clean_name (butlast (starter_player_rewrite s pfs)))
                          @ ''/'' @ clean_name nm @ ''.lua''
                \<and> map fst (files (fsys st1))
                    = map fst (files fs1)
                      @ map rec_path
                          (take (length (filter (is_written_script root) before)) (scripts_found st))
                \<and> rec_path (scripts_found st ! length (filter (is_written_script root) before))
                    = unique_path (fsys st1) fp0
                \<and> \<not> path_exists (fsys st1) (unique_path (fsys st1) fp0)
                \<and> (\<not> path_exists (fsys st1) fp0 \<longrightarrow> unique_path (fsys st1) fp0 = fp0)
                \<and> (path_exists (fsys st1) fp0 \<longrightarrow>
                     (\<exists>k\<ge>1. unique_path (fsys st1) fp0 = suffixed (take (length fp0 - 4) fp0) k
                        \<and> (\<forall>j. 1 \<le> j \<and> j < k \<longrightarrow>
                              path_exists (fsys st1) (suffixed (take (length fp0 - 4) fp0) j))))))"
proof -
  let ?st0 = "\<lparr>fsys = fs1, scripts_found = [], folder_structure = {}\<rparr>"
  from assms have run: "process_items root ?st0 (iter_tag root ''Item'') = Some (Inr st)"
    by (simp add: extract_scripts_with_structure_def)
  from process_items_result [OF run iter_tag_valid]
  have run_level: "distinct (map rec_path (scripts_found st))
       \<and> map rec_name (scripts_found st) = map name_of (script_nodes root)
       \<and> files (fsys st)
           = files fs1 @ zip (map rec_path (scripts_found st)) (map source_of (script_nodes root))
       \<and> (\<forall>r \<in> set (scripts_found st). \<not> path_exists fs1 (rec_path r))"
    by (auto simp: script_nodes_def)
  have item_level:
    "\<exists>st_b st1 nm s pfs base_dir fp0.
        process_items root ?st0 before = Some (Inr st_b)
        \<and> name_text e = Some nm
        \<and> find_parent_service (p, e) root = Some (Some s, pfs)
        \<and> map_of service_mapping s = Some base_dir
        \<and> build_file_path st_b base_dir (starter_player_rewrite s pfs) nm = Inr (st1, fp0)
        \<and> fp0 = join base_dir (map clean_name (butlast (starter_player_rewrite s pfs)))
                  @ ''/'' @ clean_name nm @ ''.lua''
        \<and> map fst (files (fsys st1))
            = map fst (files fs1)
              @ map rec_path
                  (take (length (filter (is_written_script root) before)) (scripts_found st))
        \<and> rec_path (scripts_found st ! length (filter (is_written_script root) before))
            = unique_path (fsys st1) fp0
        \<and> \<not> path_exists (fsys st1) (unique_path (fsys st1) fp0)
        \<and> (\<not> path_exists (fsys st1) fp0 \<longrightarrow> unique_path (fsys st1) fp0 = fp0)
        \<and> (path_exists (fsys st1) fp0 \<longrightarrow>
             (\<exists>k\<ge>1. unique_path (fsys st1) fp0 = suffixed (take (length fp0 - 4) fp0) k
                \<and> (\<forall>j. 1 \<le> j \<and> j < k \<longrightarrow>
                      path_exists (fsys st1) (suffixed (take (length fp0 - 4) fp0) j))))"
    if split: "iter_tag root ''Item'' = before @ (p, e) # after"
      and w: "is_written_script root (p, e)"
    for before p e after
  proof -
    have "(p, e) \<in> set (iter_tag root ''Item'')" by (simp add: split)
    with iter_tag_tagged [of root "''Item''"] have tagged: "tag e = ''Item''" by auto
    from iter_tag_valid [of root "''Item''"]
    have valid: "\<forall>(p, e) \<in> set (before @ (p, e) # after). elem_at root p = Some e"
      by (simp only: split)
    from run have run': "process_items root ?st0 (before @ (p, e) # after) = Some (Inr st)"
      by (simp only: split)
    have empty: "scripts_found ?st0 = []" by simp
    from written_script_step [OF run' valid tagged w empty]
    obtain st_b and st1 :: state and nm s pfs base_dir fp0 where
      step: "process_items root ?st0 before = Some (Inr st_b)"
        "name_text e = Some nm"
        "find_parent_service (p, e) root = Some (Some s, pfs)"
        "map_of service_mapping s = Some base_dir"
        "build_file_path st_b base_dir (starter_player_rewrite s pfs) nm = Inr (st1, fp0)"
        "fp0 = join base_dir (map clean_name (butlast (starter_player_rewrite s pfs)))
                  @ ''/'' @ clean_name nm @ ''.lua''"
        "map fst (files (fsys st1))
            = map fst (files (fsys ?st0))
              @ map rec_path
                  (take (length (filter (is_written_script root) before)) (scripts_found st))"
        "rec_path (scripts_found st ! length (filter (is_written_script root) before))
            = unique_path (fsys st1) fp0"
      by blast
    have naming: "\<not> path_exists (fsys st1) (unique_path (fsys st1) fp0)
        \<and> (\<not> path_exists (fsys st1) fp0 \<longrightarrow> unique_path (fsys st1) fp0 = fp0)
        \<and> (path_exists (fsys st1) fp0 \<longrightarrow>
             (\<exists>k\<ge>1. unique_path (fsys st1) fp0 = suffixed (take (length fp0 - 4) fp0) k
                \<and> (\<forall>j. 1 \<le> j \<and> j < k \<longrightarrow>
                      path_exists (fsys st1) (suffixed (take (length fp0 - 4) fp0) j))))"
      using unique_path_free unique_path_unsuffixed unique_path_suffixed by blast
    from step(7) have files1: "map fst (files (fsys st1))
            = map fst (files fs1)
              @ map rec_path
                  (take (length (filter (is_written_script root) before)) (scripts_found st))"
      by simp
    from step(1-6) files1 step(8) naming show ?thesis by blast
  qed
  from run_level item_level show ?thesis by blast
qed

text \<open>
  The theorem at the tree with three module scripts named \<^verbatim>\<open>Utils\<close>, for the second of
  them: when the loop reaches it the file of the first exists, and it is written to
  \<^verbatim>\<open>src/shared/Utils_1.lua\<close>.
\<close>

theorem collisions_resolved_by_suffix_witness:
  "prepare_output empty_fs = Inr (fsys start_state)
   \<and> extract_scripts_with_structure empty_fs utils_tree = Some (Inr utils_result)
   \<and> plain_names utils_tree
   \<and> iter_tag utils_tree ''Item''
       = take 2 (iter_tag utils_tree ''Item'')
         @ ([0, 2], mk_script ''ModuleScript'' ''Utils'' ''return 2'' [])
         # drop 3 (iter_tag utils_tree ''Item'')
   \<and> is_written_script utils_tree ([0, 2], mk_script ''ModuleScript'' ''Utils'' ''return 2'' [])
   \<and> length (filter (is_written_script utils_tree) (take 2 (iter_tag utils_tree ''Item''))) = 1
   \<and> map rec_path (scripts_found utils_result)
       = [''src/shared/Utils.lua'', ''src/shared/Utils_1.lua'', ''src/shared/Utils_2.lua'']
   \<and> distinct (map rec_path (scripts_found utils_result))
   \<and> files (fsys utils_result)
       = files (fsys start_state)
         @ zip (map rec_path (scripts_found utils_result)) (map source_of (script_nodes utils_tree))
   \<and> (\<exists>st1 :: state. map fst (files (fsys st1)) = [''src/shared/Utils.lua'']
          \<and> path_exists (fsys st1) ''src/shared/Utils.lua''
          \<and> rec_path (scripts_found utils_result ! 1)
              = unique_path (fsys st1) ''src/shared/Utils.lua''
          \<and> (\<exists>k\<ge>1. unique_path (fsys st1) ''src/shared/Utils.lua''
                       = suffixed ''src/shared/Utils'' k))
   \<and> rec_path (scripts_found utils_result ! 1) = suffixed ''src/shared/Utils'' 1"
proof -
  let ?e = "mk_script ''ModuleScript'' ''Utils'' ''return 2'' []"
  let ?before = "take 2 (iter_tag utils_tree ''Item'')"
  let ?after = "drop 3 (iter_tag utils_tree ''Item'')"
  have prep: "prepare_output empty_fs = Inr (fsys start_state)" by code_simp
  have run: "extract_scripts_with_structure empty_fs utils_tree = Some (Inr utils_result)"
    by code_simp
  have plain: "plain_names utils_tree" by code_simp
  have split: "iter_tag utils_tree ''Item'' = ?before @ ([0, 2], ?e) # ?after" by code_simp
  have w: "is_written_script utils_tree ([0, 2], ?e)" by code_simp
  have idx: "length (filter (is_written_script utils_tree) ?before) = 1" by code_simp
  have paths: "map rec_path (scripts_found utils_result)
       = [''src/shared/Utils.lua'', ''src/shared/Utils_1.lua'', ''src/shared/Utils_2.lua'']"
    by code_simp
  have second: "rec_path (scripts_found utils_result ! 1) = suffixed ''src/shared/Utils'' 1"
    by code_simp
  have nm: "name_text ?e = Some ''Utils''" by code_simp
  have fps: "find_parent_service ([0, 2], ?e) utils_tree
      = Some (Some ''ReplicatedStorage'', [''Utils''])"
    by code_simp
  have base: "map_of service_mapping ''ReplicatedStorage'' = Some ''src/shared''" by code_simp
  have computed: "join ''src/shared''
        (map clean_name (butlast (starter_player_rewrite ''ReplicatedStorage'' [''Utils''])))
      @ ''/'' @ clean_name ''Utils'' @ ''.lua'' = ''src/shared/Utils.lua''"
    by code_simp
  have earlier: "map fst (files (fsys start_state))
      @ map rec_path (take 1 (scripts_found utils_result)) = [''src/shared/Utils.lua'']"
    by code_simp
  have stem: "take (length ''src/shared/Utils.lua'' - 4) ''src/shared/Utils.lua''
      = ''src/shared/Utils''"
    by code_simp
  note inst = collisions_resolved_by_suffix [OF prep run plain]
  from inst have dist: "distinct (map rec_path (scripts_found utils_result))"
    and fl: "files (fsys utils_result)
       = files (fsys start_state)
         @ zip (map rec_path (scripts_found utils_result)) (map source_of (script_nodes utils_tree))"
    by blast+
  from inst split w
  obtain st1 :: state and nm' s pfs base_dir fp0 where
    nm': "name_text ?e = Some nm'"
    and fps': "find_parent_service ([0, 2], ?e) utils_tree = Some (Some s, pfs)"
    and base': "map_of service_mapping s = Some base_dir"
    and fp0: "fp0 = join base_dir (map clean_name (butlast (starter_player_rewrite s pfs)))
                   @ ''/'' @ clean_name nm' @ ''.lua''"
    and files1: "map fst (files (fsys st1))
        = map fst (files (fsys start_state))
          @ map rec_path
              (take (length (filter (is_written_script utils_tree) ?before))
                 (scripts_found utils_result))"
    and path: "rec_path (scripts_found utils_result
                 ! length (filter (is_written_script utils_tree) ?before))
        = unique_path (fsys st1) fp0"
    and suffix: "path_exists (fsys st1) fp0 \<longrightarrow>
         (\<exists>k\<ge>1. unique_path (fsys st1) fp0 = suffixed (take (length fp0 - 4) fp0) k
            \<and> (\<forall>j. 1 \<le> j \<and> j < k \<longrightarrow>
                  path_exists (fsys st1) (suffixed (take (length fp0 - 4) fp0) j)))"
    by blast
  from nm nm' have "nm' = ''Utils''" by simp
  moreover from fps fps' have "s = ''ReplicatedStorage''" "pfs = [''Utils'']" by simp_all
  moreover from this base base' have "base_dir = ''src/shared''" by simp
  ultimately have fp0': "fp0 = ''src/shared/Utils.lua''"
    using fp0 computed by simp
  from files1 have files1': "map fst (files (fsys st1)) = [''src/shared/Utils.lua'']"
    by (simp only: idx earlier)
  then have taken: "path_exists (fsys st1) ''src/shared/Utils.lua''"
    by (simp add: path_exists_def isfile_def)
  from path have path': "rec_path (scripts_found utils_result ! 1)
      = unique_path (fsys st1) ''src/shared/Utils.lua''"
    by (simp only: idx fp0')
  from suffix taken have least: "\<exists>k\<ge>1. unique_path (fsys st1) ''src/shared/Utils.lua''
      = suffixed ''src/shared/Utils'' k"
    unfolding fp0' stem by blast
  have moment: "\<exists>st1 :: state. map fst (files (fsys st1)) = [''src/shared/Utils.lua'']
          \<and> path_exists (fsys st1) ''src/shared/Utils.lua''
          \<and> rec_path (scripts_found utils_result ! 1)
              = unique_path (fsys st1) ''src/shared/Utils.lua''
          \<and> (\<exists>k\<ge>1. unique_path (fsys st1) ''src/shared/Utils.lua''
                       = suffixed ''src/shared/Utils'' k)"
  proof (rule exI [of _ st1])
    from files1' taken path' least
    show "map fst (files (fsys st1)) = [''src/shared/Utils.lua'']
          \<and> path_exists (fsys st1) ''src/shared/Utils.lua''
          \<and> rec_path (scripts_found utils_result ! 1)
              = unique_path (fsys st1) ''src/shared/Utils.lua''
          \<and> (\<exists>k\<ge>1. unique_path (fsys st1) ''src/shared/Utils.lua''
                       = suffixed ''src/shared/Utils'' k)"
      by (intro conjI)
  qed
  from prep run plain split w idx paths dist fl moment second show ?thesis
    by (intro conjI)
qed

text \<open>
  Claim C3 as stated fails when a suffixed name is taken by another script: the two
  scripts named \<^verbatim>\<open>X\<close> resolve to the same path and the same service, the computed file
  path of both is \<^verbatim>\<open>src/shared/X.lua\<close>, and the second of them is written to
  \<^verbatim>\<open>src/shared/X_2.lua\<close>, not to \<^verbatim>\<open>src/shared/X_1.lua\<close>, which the script named \<^verbatim>\<open>X_1\<close>
  between them has taken.
\<close>

theorem second_collision_gets_suffix_2_counterexample:
  "find_parent_service ([0, 1], first_x) collide_tree = Some (Some ''ReplicatedStorage'', [''X''])
   \<and> find_parent_service ([0, 3], second_x) collide_tree = Some (Some ''ReplicatedStorage'', [''X''])
   \<and> build_file_path start_state ''src/shared'' [''X''] ''X'' = Inr (start_state, ''src/shared/X.lua'')
   \<and> extract_scripts_with_structure empty_fs collide_tree = Some (Inr collide_result)
   \<and> map rec_path (scripts_found collide_result)
       = [''src/shared/X.lua'', ''src/shared/X_1.lua'', ''src/shared/X_2.lua'']
   \<and> rec_path (scripts_found collide_result ! 2) \<noteq> ''src/shared/X_1.lua''"
  by code_simp

subsection \<open>The files of the scripts under \<^verbatim>\<open>StarterPlayer\<close>\<close>

text \<open>
  Claim C4. Under \<^verbatim>\<open>StarterPlayer\<close> a first segment \<^verbatim>\<open>StarterPlayerScripts\<close> is dropped
  and a first segment \<^verbatim>\<open>StarterCharacterScripts\<close> is kept. In every run that completes,
  on a tree without an item named \<^verbatim>\<open>.\<close> or \<^verbatim>\<open>..\<close>, for every script that is written:
  when \<^verbatim>\<open>find_parent_service\<close> places it under \<^verbatim>\<open>StarterPlayer\<close> with a path that starts
  with \<^verbatim>\<open>StarterPlayerScripts\<close>, the directory of its file is built below \<^verbatim>\<open>src/client\<close>
  from the cleaned names of the rest of the path without the name of the script, so
  that the marker segment does not appear in it; that directory exists after the run;
  the file is named by the cleaned name of the script and \<^verbatim>\<open>.lua\<close>, with \<open>_k\<close> before
  the extension when the name is taken; and the file holds the source text of the
  script. When the path starts with \<^verbatim>\<open>StarterCharacterScripts\<close> the same holds with the
  directory built from the whole path without the name of the script, which starts
  with \<^verbatim>\<open>src/client/StarterCharacterScripts\<close>. A script directly below
  \<^verbatim>\<open>StarterPlayerScripts\<close> gets a file directly in \<^verbatim>\<open>src/client\<close>. The run on the tree
  with the \<^verbatim>\<open>LocalScript\<close> \<^verbatim>\<open>Move\<close> at \<^verbatim>\<open>StarterPlayer/StarterPlayerScripts/Move\<close> writes
  exactly \<^verbatim>\<open>src/client/Move.lua\<close>, and the run on the tree with the \<^verbatim>\<open>Script\<close> \<^verbatim>\<open>Init\<close>
  at \<^verbatim>\<open>StarterPlayer/StarterCharacterScripts/Init\<close> writes exactly
  \<^verbatim>\<open>src/client/StarterCharacterScripts/Init.lua\<close>, each with the source text of the
  script.
\<close>

theorem starter_player_paths:
  assumes "prepare_output fs0 = Inr fs1"
    and "extract_scripts_with_structure fs0 root = Some (Inr st)"
    and "plain_names root"
  shows "(\<forall>rest. starter_player_rewrite ''StarterPlayer'' (''StarterPlayerScripts'' # rest) = rest
            \<and> starter_player_rewrite ''StarterPlayer'' (''StarterCharacterScripts'' # rest)
                = ''StarterCharacterScripts'' # rest)
       \<and> (\<forall>i rest. i < length (script_nodes root) \<longrightarrow>
             find_parent_service (script_nodes root ! i) root
               = Some (Some ''StarterPlayer'', ''StarterPlayerScripts'' # rest) \<longrightarrow>
             join ''src/client'' (map clean_name (butlast rest)) \<in> set (dirs (fsys st))
             \<and> (rec_path (scripts_found st ! i)
                  = join ''src/client'' (map clean_name (butlast rest))
                    @ ''/'' @ clean_name (name_of (script_nodes root ! i)) @ ''.lua''
                \<or> (\<exists>k\<ge>1. rec_path (scripts_found st ! i)
                      = suffixed (join ''src/client'' (map clean_name (butlast rest))
                                  @ ''/'' @ clean_name (name_of (script_nodes root ! i))) k))
             \<and> map_of (files (fsys st)) (rec_path (scripts_found st ! i))
                 = Some (source_of (script_nodes root ! i)))
       \<and> (\<forall>i rest. i < length (script_nodes root) \<longrightarrow>
             find_parent_service (script_nodes root ! i) root
               = Some (Some ''StarterPlayer'', ''StarterCharacterScripts'' # rest) \<longrightarrow>
             join ''src/client'' (map clean_name (butlast (''StarterCharacterScripts'' # rest)))
               \<in> set (dirs (fsys st))
             \<and> (rec_path (scripts_found st ! i)
                  = join ''src/client''
                      (map clean_name (butlast (''StarterCharacterScripts'' # rest)))
                    @ ''/'' @ clean_name (name_of (script_nodes root ! i)) @ ''.lua''
                \<or> (\<exists>k\<ge>1. rec_path (scripts_found st ! i)
                      = suffixed (join ''src/client''
                                    (map clean_name (butlast (''StarterCharacterScripts'' # rest)))
                                  @ ''/'' @ clean_name (name_of (script_nodes root ! i))) k))
             \<and> map_of (files (fsys st)) (rec_path (scripts_found st ! i))
                 = Some (source_of (script_nodes root ! i)))
       \<and> (\<forall>st_a n. build_file_path st_a ''src/client''
               (starter_player_rewrite ''StarterPlayer'' [''StarterPlayerScripts'', n]) n
             = Inr (st_a, ''src/client/'' @ clean_name n @ ''.lua''))
       \<and> map_option (map_sum id (\<lambda>res. files (fsys res)))
             (extract_scripts_with_structure empty_fs move_tree)
           = Some (Inr [(''src/client/Move.lua'', ''print(1)'')])
       \<and> map_option (map_sum id (\<lambda>res. files (fsys res)))
             (extract_scripts_with_structure empty_fs init_tree)
           = Some (Inr [(''src/client/StarterCharacterScripts/Init.lua'', ''x = 1'')])"
proof -
  let ?st0 = "\<lparr>fsys = fs1, scripts_found = [], folder_structure = {}\<rparr>"
  from assms have run: "process_items root ?st0 (iter_tag root ''Item'') = Some (Inr st)"
    by (simp add: extract_scripts_with_structure_def)
  have empty: "scripts_found ?st0 = []" by simp
  have drop: "starter_player_rewrite ''StarterPlayer'' (''StarterPlayerScripts'' # rest) = rest"
    for rest
    by (simp add: starter_player_rewrite_def)
  have keep: "starter_player_rewrite ''StarterPlayer'' (''StarterCharacterScripts'' # rest)
       = ''StarterCharacterScripts'' # rest" for rest
    by (simp add: starter_player_rewrite_def)
  have dropped: "join ''src/client'' (map clean_name (butlast rest)) \<in> set (dirs (fsys st))
       \<and> (rec_path (scripts_found st ! i)
            = join ''src/client'' (map clean_name (butlast rest))
              @ ''/'' @ clean_name (name_of (script_nodes root ! i)) @ ''.lua''
          \<or> (\<exists>k\<ge>1. rec_path (scripts_found st ! i)
                = suffixed (join ''src/client'' (map clean_name (butlast rest))
                            @ ''/'' @ clean_name (name_of (script_nodes root ! i))) k))
       \<and> map_of (files (fsys st)) (rec_path (scripts_found st ! i))
           = Some (source_of (script_nodes root ! i))"
    if i: "i < length (script_nodes root)"
      and fps: "find_parent_service (script_nodes root ! i) root
               = Some (Some ''StarterPlayer'', ''StarterPlayerScripts'' # rest)"
    for i rest
    using written_script_file [OF run empty i fps client_base]
    by (simp only: drop)
  have kept: "join ''src/client'' (map clean_name (butlast (''StarterCharacterScripts'' # rest)))
               \<in> set (dirs (fsys st))
       \<and> (rec_path (scripts_found st ! i)
            = join ''src/client'' (map clean_name (butlast (''StarterCharacterScripts'' # rest)))
              @ ''/'' @ clean_name (name_of (script_nodes root ! i)) @ ''.lua''
          \<or> (\<exists>k\<ge>1. rec_path (scripts_found st ! i)
                = suffixed (join ''src/client''
                              (map clean_name (butlast (''StarterCharacterScripts'' # rest)))
                            @ ''/'' @ clean_name (name_of (script_nodes root ! i))) k))
       \<and> map_of (files (fsys st)) (rec_path (scripts_found st ! i))
           = Some (source_of (script_nodes root ! i))"
    if i: "i < length (script_nodes root)"
      and fps: "find_parent_service (script_nodes root ! i) root
               = Some (Some ''StarterPlayer'', ''StarterCharacterScripts'' # rest)"
    for i rest
    using written_script_file [OF run empty i fps client_base]
    by (simp only: keep)
  have direct: "build_file_path st_a ''src/client''
         (starter_player_rewrite ''StarterPlayer'' [''StarterPlayerScripts'', n]) n
       = Inr (st_a, ''src/client/'' @ clean_name n @ ''.lua'')" for st_a n
    using hd_clean_name_lua [of n] by (simp add: build_file_path_def drop)
  have move: "map_option (map_sum id (\<lambda>res. files (fsys res)))
         (extract_scripts_with_structure empty_fs move_tree)
       = Some (Inr [(''src/client/Move.lua'', ''print(1)'')])"
    by code_simp
  have init: "map_option (map_sum id (\<lambda>res. files (fsys res)))
         (extract_scripts_with_structure empty_fs init_tree)
       = Some (Inr [(''src/client/StarterCharacterScripts/Init.lua'', ''x = 1'')])"
    by code_simp
  from drop keep dropped kept direct move init show ?thesis by blast
qed

text \<open>
  The theorem at the script \<^verbatim>\<open>Move\<close> of \<^verbatim>\<open>StarterPlayer/StarterPlayerScripts/Ctl/Move\<close>,
  two levels below the marker: its file is \<^verbatim>\<open>src/client/Ctl/Move.lua\<close>.
\<close>

theorem starter_player_paths_witness:
  "prepare_output empty_fs = Inr (fsys start_state)
   \<and> extract_scripts_with_structure empty_fs ctl_tree = Some (Inr ctl_result)
   \<and> plain_names ctl_tree
   \<and> script_nodes ctl_tree = [([0, 1, 1, 1], move_script)]
   \<and> find_parent_service ([0, 1, 1, 1], move_script) ctl_tree
       = Some (Some ''StarterPlayer'', [''StarterPlayerScripts'', ''Ctl'', ''Move''])
   \<and> ''src/client/Ctl'' \<in> set (dirs (fsys ctl_result))
   \<and> rec_path (scripts_found ctl_result ! 0) = ''src/client/Ctl/Move.lua''
   \<and> map_of (files (fsys ctl_result)) ''src/client/Ctl/Move.lua'' = Some ''print(1)''"
proof -
  have prep: "prepare_output empty_fs = Inr (fsys start_state)" by code_simp
  have run: "extract_scripts_with_structure empty_fs ctl_tree = Some (Inr ctl_result)"
    by code_simp
  have plain: "plain_names ctl_tree" by code_simp
  have nodes: "script_nodes ctl_tree = [([0, 1, 1, 1], move_script)]" by code_simp
  have fps: "find_parent_service ([0, 1, 1, 1], move_script) ctl_tree
       = Some (Some ''StarterPlayer'', [''StarterPlayerScripts'', ''Ctl'', ''Move''])"
    by code_simp
  have path: "rec_path (scripts_found ctl_result ! 0) = ''src/client/Ctl/Move.lua''"
    by code_simp
  have dir: "join ''src/client'' (map clean_name (butlast [''Ctl'', ''Move''])) = ''src/client/Ctl''"
    by code_simp
  have source: "source_of ([0, 1, 1, 1], move_script) = ''print(1)''" by code_simp
  have i: "(0::nat) < length (script_nodes ctl_tree)" by (simp add: nodes)
  have fps': "find_parent_service (script_nodes ctl_tree ! 0) ctl_tree
       = Some (Some ''StarterPlayer'', ''StarterPlayerScripts'' # [''Ctl'', ''Move''])"
    using fps by (simp add: nodes)
  note inst = starter_player_paths [OF prep run plain]
  from inst i fps'
  have "join ''src/client'' (map clean_name (butlast [''Ctl'', ''Move'']))
           \<in> set (dirs (fsys ctl_result))
        \<and> map_of (files (fsys ctl_result)) (rec_path (scripts_found ctl_result ! 0))
            = Some (source_of (script_nodes ctl_tree ! 0))"
    by blast
  then have exists: "''src/client/Ctl'' \<in> set (dirs (fsys ctl_result))"
    and content: "map_of (files (fsys ctl_result)) ''src/client/Ctl/Move.lua'' = Some ''print(1)''"
    by (simp_all only: dir path nodes nth_Cons_0 source)
  from prep run plain nodes fps exists path content show ?thesis by blast
qed

subsection \<open>The directories of the written scripts and of the folders\<close>

lemma script_dir_target:
  "is_written_script root item \<Longrightarrow> script_dir root item = item_target root item"
  by (auto simp: script_dir_def item_target_def is_written_script_def
      simp del: join.simps split: option.splits)

lemma script_dir_written: "script_dir root item = Some d \<Longrightarrow> is_written_script root item"
  by (simp add: script_dir_def split: if_splits)

lemma folder_path_not_script:
  "folder_path root item = Some x \<Longrightarrow> get (snd item) ''class'' \<notin> Some ` set script_classes"
  by (auto simp: folder_path_def script_classes_def split: option.splits if_splits)

lemma folder_path_target:
  "folder_path root item = Some (s, base_dir, pfs) \<Longrightarrow>
     item_target root item = Some (join base_dir (map clean_name pfs))"
proof -
  assume fp: "folder_path root item = Some (s, base_dir, pfs)"
  from folder_path_not_script [OF fp]
  have ns: "get (snd item) ''class'' \<notin> Some ` set script_classes" .
  from fp ns show ?thesis
    by (auto simp: folder_path_def item_target_def simp del: join.simps
        split: option.splits if_splits)
qed

lemma needed_dir_target: "needed_dir root item = Some t \<Longrightarrow> item_target root item = Some t"
proof (cases "script_dir root item")
  case (Some d)
  assume "needed_dir root item = Some t"
  with Some have "d = t" by (simp add: needed_dir_def)
  with Some script_dir_target [OF script_dir_written [OF Some]] show ?thesis by simp
next
  case None
  assume "needed_dir root item = Some t"
  with None have "folder_dir root item = Some t" by (simp add: needed_dir_def)
  then obtain s base_dir pfs where
    fp: "folder_path root item = Some (s, base_dir, pfs)"
    and t: "t = join base_dir (map clean_name pfs)"
    by (auto simp: folder_dir_def simp del: join.simps split: option.splits if_splits)
  from folder_path_target [OF fp] t show ?thesis by simp
qed

lemma item_target_needed:
  assumes "item_target root item = Some t"
  shows "needed_dir root item = Some t \<or> t \<in> set (marker_folder_dirs root item)"
proof (cases "is_written_script root item")
  case True
  from script_dir_target [OF True] assms have "script_dir root item = Some t" by simp
  then show ?thesis by (simp add: needed_dir_def)
next
  case False
  then have nd: "script_dir root item = None" by (simp add: script_dir_def)
  from assms False obtain s base_dir pfs where
    fp: "folder_path root item = Some (s, base_dir, pfs)"
    and t: "t = join base_dir (map clean_name pfs)"
    by (auto simp: item_target_def folder_path_def is_written_script_def
        simp del: join.simps split: option.splits if_splits)
  show ?thesis
  proof (cases "starter_player_rewrite s pfs = pfs")
    case True
    with fp t nd show ?thesis by (simp add: needed_dir_def folder_dir_def del: join.simps)
  next
    case False
    with fp t show ?thesis by (simp add: marker_folder_dirs_def del: join.simps)
  qed
qed

lemma other_class_no_dir:
  assumes "get (snd item) ''class'' \<notin> Some ` set script_classes"
    and "get (snd item) ''class'' \<noteq> Some ''Folder''"
  shows "script_dir root item = None \<and> folder_dir root item = None
       \<and> marker_folder_dirs root item = []"
  using assms
  by (auto simp: script_dir_def is_written_script_def folder_dir_def marker_folder_dirs_def
      folder_path_def split: option.splits)

text \<open>
  Claim C6, as the code has it. In a run that completes, on a tree without an item
  named \<^verbatim>\<open>.\<close> or \<^verbatim>\<open>..\<close>: the file of every written script lies in the directory built
  from the cleaned names of its rewritten path. Every directory that a written script
  needs, or a folder whose path the rewriting leaves as it is, exists after the run,
  with its ancestors. A directory is created only on demand: every directory after the
  run is one from before the loop (the base directories among them), or one of these
  needed directories or their ancestors, or lies on the way to the directory of a
  folder below \<^verbatim>\<open>StarterPlayer/StarterPlayerScripts\<close>, built from its path or from its
  rewritten path; which of the two such a folder gets is left open. When the tree has
  no such folder, the directories after the run are exactly those from before the loop
  and the needed ones with their ancestors. An item that is neither of a script class
  nor a folder needs no directory and leaves the state as it is.
\<close>

theorem directories_on_demand:
  assumes "prepare_output fs0 = Inr fs1"
    and "extract_scripts_with_structure fs0 root = Some (Inr st)"
    and "plain_names root"
  shows "map (\<lambda>r. Some (dirname (rec_path r))) (scripts_found st)
           = map (script_dir root) (script_nodes root)
       \<and> (\<forall>t \<in> set (needed_dirs root). set (path_prefixes t) \<subseteq> set (dirs (fsys st)))
       \<and> set (dirs (fsys st))
           \<subseteq> set (dirs fs1) \<union> (\<Union>t \<in> set (needed_dirs root). set (path_prefixes t))
               \<union> (\<Union>t \<in> set (open_dirs root). set (path_prefixes t))
       \<and> (open_dirs root = [] \<longrightarrow>
            set (dirs (fsys st))
              = set (dirs fs1) \<union> (\<Union>t \<in> set (needed_dirs root). set (path_prefixes t)))
       \<and> (\<forall>p e st_a. elem_at root p = Some e
              \<longrightarrow> get e ''class'' \<notin> Some ` set script_classes
              \<longrightarrow> get e ''class'' \<noteq> Some ''Folder''
              \<longrightarrow> script_dir root (p, e) = None \<and> folder_dir root (p, e) = None
                  \<and> marker_folder_dirs root (p, e) = []
                  \<and> process_item root st_a (p, e) = Some (Inr st_a))"
proof -
  let ?st0 = "\<lparr>fsys = fs1, scripts_found = [], folder_structure = {}\<rparr>"
  let ?items = "iter_tag root ''Item''"
  from assms have run: "process_items root ?st0 ?items = Some (Inr st)"
    by (simp add: extract_scripts_with_structure_def)
  from process_items_dirs [OF run iter_tag_valid]
  have dirs_eq: "set (dirs (fsys st))
           = set (dirs fs1)
             \<union> (\<Union>t \<in> set (List.map_filter (item_target root) ?items). set (path_prefixes t))"
    by simp
  have lower: "set (path_prefixes t) \<subseteq> set (dirs (fsys st))" if "t \<in> set (needed_dirs root)" for t
  proof -
    from that obtain item where item: "item \<in> set ?items" "needed_dir root item = Some t"
      by (auto simp: needed_dirs_def set_map_filter)
    from needed_dir_target [OF item(2)] item(1)
    have "t \<in> set (List.map_filter (item_target root) ?items)"
      unfolding set_map_filter by blast
    with dirs_eq show ?thesis by blast
  qed
  have upper: "set (dirs (fsys st))
           \<subseteq> set (dirs fs1) \<union> (\<Union>t \<in> set (needed_dirs root). set (path_prefixes t))
               \<union> (\<Union>t \<in> set (open_dirs root). set (path_prefixes t))"
  proof
    fix d assume "d \<in> set (dirs (fsys st))"
    with dirs_eq consider "d \<in> set (dirs fs1)"
      | item t where "item \<in> set ?items" "item_target root item = Some t"
          "d \<in> set (path_prefixes t)"
      by (auto simp: set_map_filter)
    then show "d \<in> set (dirs fs1) \<union> (\<Union>t \<in> set (needed_dirs root). set (path_prefixes t))
               \<union> (\<Union>t \<in> set (open_dirs root). set (path_prefixes t))"
    proof cases
      case 1
      then show ?thesis by simp
    next
      case 2
      from item_target_needed [OF 2(2)] show ?thesis
      proof
        assume "needed_dir root item = Some t"
        with 2(1) have "t \<in> set (needed_dirs root)"
          by (auto simp: needed_dirs_def set_map_filter)
        with 2(3) show ?thesis by blast
      next
        assume "t \<in> set (marker_folder_dirs root item)"
        with 2(1) have "t \<in> set (open_dirs root)" by (auto simp: open_dirs_def)
        with 2(3) show ?thesis by blast
      qed
    qed
  qed
  have exact: "set (dirs (fsys st))
      = set (dirs fs1) \<union> (\<Union>t \<in> set (needed_dirs root). set (path_prefixes t))"
    if "open_dirs root = []"
  proof
    from upper that
    show "set (dirs (fsys st))
        \<subseteq> set (dirs fs1) \<union> (\<Union>t \<in> set (needed_dirs root). set (path_prefixes t))"
      by simp
    from process_items_result [OF run iter_tag_valid]
    have "set (dirs fs1) \<subseteq> set (dirs (fsys st))" by auto
    with lower
    show "set (dirs fs1) \<union> (\<Union>t \<in> set (needed_dirs root). set (path_prefixes t))
        \<subseteq> set (dirs (fsys st))"
      by blast
  qed
  from process_items_targets [OF run iter_tag_valid]
  have "map (\<lambda>r. Some (dirname (rec_path r))) (scripts_found st)
           = map (item_target root) (script_nodes root)"
    by (auto simp: script_nodes_def)
  also have "map (item_target root) (script_nodes root) = map (script_dir root) (script_nodes root)"
    by (rule map_cong) (simp_all add: script_nodes_def script_dir_target)
  finally have targets: "map (\<lambda>r. Some (dirname (rec_path r))) (scripts_found st)
           = map (script_dir root) (script_nodes root)" .
  have others: "script_dir root (p, e) = None \<and> folder_dir root (p, e) = None
                  \<and> marker_folder_dirs root (p, e) = []
                  \<and> process_item root st_a (p, e) = Some (Inr st_a)"
    if "elem_at root p = Some e" and "get e ''class'' \<notin> Some ` set script_classes"
      and "get e ''class'' \<noteq> Some ''Folder''" for p e st_a
    using process_item_other_class [OF that] other_class_no_dir [of "(p, e)" root] that(2,3)
    by simp
  from targets lower upper exact others show ?thesis by blast
qed

text \<open>
  The theorem at the tree with the script \<^verbatim>\<open>Main\<close> and the folder \<^verbatim>\<open>Lib\<close> under
  \<^verbatim>\<open>ServerScriptService\<close>, whose own item is of the class \<^verbatim>\<open>ServerScriptService\<close>.
\<close>

theorem directories_on_demand_witness:
  "prepare_output empty_fs = Inr (fsys start_state)
   \<and> extract_scripts_with_structure empty_fs sample_tree = Some (Inr sample_result)
   \<and> plain_names sample_tree
   \<and> needed_dirs sample_tree = [''src/server'', ''src/server/Lib'', ''src/server/Lib'']
   \<and> open_dirs sample_tree = []
   \<and> set (path_prefixes ''src/server/Lib'') \<subseteq> set (dirs (fsys sample_result))
   \<and> set (dirs (fsys sample_result))
       = set (dirs (fsys start_state))
         \<union> (\<Union>t \<in> set (needed_dirs sample_tree). set (path_prefixes t))
   \<and> map (\<lambda>r. Some (dirname (rec_path r))) (scripts_found sample_result)
       = [Some ''src/server'', Some ''src/server/Lib'']
   \<and> elem_at sample_tree [0]
       = Some (mk_item ''ServerScriptService'' ''ServerScriptService'' []
                 [main_script, mk_item ''Folder'' ''Lib'' [] [util_script]])
   \<and> process_item sample_tree start_state
         ([0], mk_item ''ServerScriptService'' ''ServerScriptService'' []
                 [main_script, mk_item ''Folder'' ''Lib'' [] [util_script]])
       = Some (Inr start_state)"
proof -
  let ?service = "mk_item ''ServerScriptService'' ''ServerScriptService'' []
                 [main_script, mk_item ''Folder'' ''Lib'' [] [util_script]]"
  have prep: "prepare_output empty_fs = Inr (fsys start_state)" by code_simp
  have run: "extract_scripts_with_structure empty_fs sample_tree = Some (Inr sample_result)"
    by code_simp
  have plain: "plain_names sample_tree" by code_simp
  have needed: "needed_dirs sample_tree = [''src/server'', ''src/server/Lib'', ''src/server/Lib'']"
    by code_simp
  have none_open: "open_dirs sample_tree = []" by code_simp
  have script_dirs: "map (script_dir sample_tree) (script_nodes sample_tree)
      = [Some ''src/server'', Some ''src/server/Lib'']"
    by code_simp
  have at: "elem_at sample_tree [0] = Some ?service" by code_simp
  have cls: "get ?service ''class'' = Some ''ServerScriptService''" by code_simp
  then have other: "get ?service ''class'' \<notin> Some ` set script_classes"
    "get ?service ''class'' \<noteq> Some ''Folder''"
    by (simp_all add: script_classes_def)
  note inst = directories_on_demand [OF prep run plain]
  from inst none_open have eq: "set (dirs (fsys sample_result))
       = set (dirs (fsys start_state))
         \<union> (\<Union>t \<in> set (needed_dirs sample_tree). set (path_prefixes t))"
    by blast
  have "''src/server/Lib'' \<in> set (needed_dirs sample_tree)" by (simp add: needed)
  with inst have sub: "set (path_prefixes ''src/server/Lib'') \<subseteq> set (dirs (fsys sample_result))"
    by blast
  from inst have "map (\<lambda>r. Some (dirname (rec_path r))) (scripts_found sample_result)
       = map (script_dir sample_tree) (script_nodes sample_tree)"
    by blast
  with script_dirs have targets: "map (\<lambda>r. Some (dirname (rec_path r))) (scripts_found sample_result)
       = [Some ''src/server'', Some ''src/server/Lib'']"
    by simp
  from inst at other
  have skip: "process_item sample_tree start_state ([0], ?service) = Some (Inr start_state)"
    by blast
  from prep run plain needed none_open sub eq targets at skip show ?thesis by (intro conjI)
qed

text \<open>
  Claim C6 as stated fails: the directories do not mirror the instances one to one.
  The two folders named \<^verbatim>\<open>F\<close> are distinct instances with one script each, and both
  are represented by the one directory \<^verbatim>\<open>src/shared/F\<close>, which holds both files: four
  folder and script instances under the service, three entries below \<^verbatim>\<open>src/shared\<close>.
\<close>

theorem same_named_folders_share_directory_counterexample:
  "elem_at twins_tree [0, 1] = Some first_twin
   \<and> elem_at twins_tree [0, 2] = Some second_twin
   \<and> folder_dir twins_tree ([0, 1], first_twin) = Some ''src/shared/F''
   \<and> folder_dir twins_tree ([0, 2], second_twin) = Some ''src/shared/F''
   \<and> open_dirs twins_tree = []
   \<and> extract_scripts_with_structure empty_fs twins_tree = Some (Inr twins_result)
   \<and> dirs (fsys twins_result)
       = [''src'', ''src/server'', ''src/client'', ''src/shared'', ''src/shared/F'']
   \<and> map fst (files (fsys twins_result)) = [''src/shared/F/A.lua'', ''src/shared/F/B.lua'']
   \<and> length (filter (\<lambda>item. needed_dir twins_tree item \<noteq> None) (iter_tag twins_tree ''Item'')) = 4
   \<and> length (filter (\<lambda>d. inside ''src/shared'' d \<and> d \<noteq> ''src/shared'') (dirs (fsys twins_result)))
       + length (files (fsys twins_result)) = 3"
  by code_simp

subsection \<open>The first level of the output directory\<close>

text \<open>
  Claim C8, as the code has it. In a run that completes, started on a disk where
  entries below \<^verbatim>\<open>src\<close> are only found when \<^verbatim>\<open>src\<close> exists, on a tree without an item
  named \<^verbatim>\<open>.\<close> or \<^verbatim>\<open>..\<close>: the directories \<^verbatim>\<open>src/server\<close>, \<^verbatim>\<open>src/client\<close> and \<^verbatim>\<open>src/shared\<close>
  exist after the run; every first-level directory of \<^verbatim>\<open>src\<close> is one of the four base
  directories; and \<^verbatim>\<open>src/workspace\<close> exists exactly when a written script or a folder
  needs a directory at or below it.
\<close>

theorem first_level_directories:
  assumes "prepare_output fs0 = Inr fs1"
    and "extract_scripts_with_structure fs0 root = Some (Inr st)"
    and "src_consistent fs0"
    and "plain_names root"
  shows "{''src/server'', ''src/client'', ''src/shared''} \<subseteq> set (dirs (fsys st))
       \<and> (\<forall>d \<in> set (dirs (fsys st)). first_level d \<longrightarrow> d \<in> set base_dirs)
       \<and> (''src/workspace'' \<in> set (dirs (fsys st))
            \<longleftrightarrow> (\<exists>t \<in> set (demanded_dirs root). inside ''src/workspace'' t))"
proof -
  let ?st0 = "\<lparr>fsys = fs1, scripts_found = [], folder_structure = {}\<rparr>"
  from assms have run: "process_items root ?st0 (iter_tag root ''Item'') = Some (Inr st)"
    by (simp add: extract_scripts_with_structure_def)
  from process_items_dirs [OF run iter_tag_valid]
  have dirs_eq: "set (dirs (fsys st))
           = set (dirs fs1) \<union> (\<Union>t \<in> set (demanded_dirs root). set (path_prefixes t))"
    by (simp add: demanded_dirs_def)
  note before = prepare_output_dirs [OF assms(1,3)]
  have three: "{''src/server'', ''src/client'', ''src/shared''} \<subseteq> set (dirs (fsys st))"
    unfolding dirs_eq before by blast
  have form: "\<exists>base_dir cs. base_dir \<in> set base_dirs \<and> (\<forall>c \<in> set cs. segment c)
      \<and> t = join base_dir cs" if "t \<in> set (demanded_dirs root)" for t
    using that item_target_form by (auto simp: demanded_dirs_item)
  have within: "d = ''src'' \<or> (\<exists>base_dir \<in> set base_dirs. inside base_dir d \<and> inside base_dir t)"
    if t: "t \<in> set (demanded_dirs root)" and d: "d \<in> set (path_prefixes t)" for t d
  proof -
    from form [OF t] obtain base_dir cs where
      base: "base_dir \<in> set base_dirs" and cs: "\<forall>c \<in> set cs. segment c"
      and j: "t = join base_dir cs"
      by blast
    note g = base_dir_good [OF base]
    from g have good: "good_dir base_dir" by simp
    from path_prefixes_join [OF good cs] d j
    have "d \<in> set (path_prefixes base_dir) \<or> inside base_dir d" and "inside base_dir t"
      by auto
    with g base show ?thesis by (auto simp: inside_refl)
  qed
  have first: "d \<in> set base_dirs" if d: "d \<in> set (dirs (fsys st))" and fl: "first_level d" for d
  proof -
    note ns = first_level_not_src [OF fl]
    from d dirs_eq consider "d \<in> set (dirs fs1)"
      | t where "t \<in> set (demanded_dirs root)" "d \<in> set (path_prefixes t)"
      by auto
    then show ?thesis
    proof cases
      case 1
      with before ns show ?thesis by (auto simp: base_dirs_def)
    next
      case 2
      from within [OF 2] ns obtain base_dir where
        "base_dir \<in> set base_dirs" "inside base_dir d"
        by blast
      with first_level_inside_base [OF _ fl] show ?thesis by blast
    qed
  qed
  have ws_not_before: "''src/workspace'' \<notin> set (dirs fs1)"
    unfolding before by (simp add: inside_def)
  have ws: "''src/workspace'' \<in> set (dirs (fsys st))
            \<longleftrightarrow> (\<exists>t \<in> set (demanded_dirs root). inside ''src/workspace'' t)"
  proof
    assume "''src/workspace'' \<in> set (dirs (fsys st))"
    with dirs_eq ws_not_before obtain t where
      t: "t \<in> set (demanded_dirs root)" and d: "''src/workspace'' \<in> set (path_prefixes t)"
      by auto
    from within [OF t d] obtain base_dir where
      base: "base_dir \<in> set base_dirs" and i: "inside base_dir ''src/workspace''"
      and it: "inside base_dir t"
      by auto
    from workspace_inside_base [OF base i] it t
    show "\<exists>t \<in> set (demanded_dirs root). inside ''src/workspace'' t" by blast
  next
    assume "\<exists>t \<in> set (demanded_dirs root). inside ''src/workspace'' t"
    then obtain t where t: "t \<in> set (demanded_dirs root)" and i: "inside ''src/workspace'' t"
      by blast
    from form [OF t] obtain base_dir cs where
      base: "base_dir \<in> set base_dirs" and cs: "\<forall>c \<in> set cs. segment c"
      and j: "t = join base_dir cs"
      by blast
    from base_dir_good [OF base] have good: "good_dir base_dir" by simp
    from path_prefixes_join [OF good cs] j have "inside base_dir t" by simp
    from base_inside_workspace [OF base this i] have b: "base_dir = ''src/workspace''" .
    from path_prefixes_join_base [OF good cs] self_in_path_prefixes [of base_dir] j
    have "base_dir \<in> set (path_prefixes t)" by auto
    with b t dirs_eq show "''src/workspace'' \<in> set (dirs (fsys st))" by auto
  qed
  from three first ws show ?thesis by blast
qed

text \<open>The theorem at the tree with a script directly under \<^verbatim>\<open>Workspace\<close>.\<close>

theorem first_level_directories_witness:
  "prepare_output empty_fs = Inr (fsys start_state)
   \<and> extract_scripts_with_structure empty_fs workspace_tree = Some (Inr workspace_result)
   \<and> src_consistent empty_fs
   \<and> plain_names workspace_tree
   \<and> {''src/server'', ''src/client'', ''src/shared''} \<subseteq> set (dirs (fsys workspace_result))
   \<and> filter first_level (dirs (fsys workspace_result))
       = [''src/server'', ''src/client'', ''src/shared'', ''src/workspace'']
   \<and> demanded_dirs workspace_tree = [''src/workspace'']
   \<and> inside ''src/workspace'' ''src/workspace''
   \<and> ''src/workspace'' \<in> set (dirs (fsys workspace_result))"
proof -
  have prep: "prepare_output empty_fs = Inr (fsys start_state)" by code_simp
  have run: "extract_scripts_with_structure empty_fs workspace_tree = Some (Inr workspace_result)"
    by code_simp
  have cons: "src_consistent empty_fs" by code_simp
  have plain: "plain_names workspace_tree" by code_simp
  have level: "filter first_level (dirs (fsys workspace_result))
       = [''src/server'', ''src/client'', ''src/shared'', ''src/workspace'']"
    by code_simp
  have demanded: "demanded_dirs workspace_tree = [''src/workspace'']" by code_simp
  have ins: "inside ''src/workspace'' ''src/workspace''" by (rule inside_refl)
  note inst = first_level_directories [OF prep run cons plain]
  from inst have three: "{''src/server'', ''src/client'', ''src/shared''}
      \<subseteq> set (dirs (fsys workspace_result))"
    by blast
  from demanded ins
  have "\<exists>t \<in> set (demanded_dirs workspace_tree). inside ''src/workspace'' t" by simp
  with inst have ws: "''src/workspace'' \<in> set (dirs (fsys workspace_result))" by blast
  from prep run cons plain three level demanded ins ws show ?thesis by blast
qed

text \<open>
  Claim C8 as stated fails when nothing under \<^verbatim>\<open>Workspace\<close> is written: after the run on
  the tree with the scripts under \<^verbatim>\<open>ServerScriptService\<close> the output directory has three
  first-level directories, and \<^verbatim>\<open>src/workspace\<close> is not among them.
\<close>

theorem workspace_directory_absent_counterexample:
  "extract_scripts_with_structure empty_fs sample_tree = Some (Inr sample_result)
   \<and> filter first_level (dirs (fsys sample_result)) = [''src/server'', ''src/client'', ''src/shared'']
   \<and> ''src/workspace'' \<notin> set (dirs (fsys sample_result))
   \<and> length (filter first_level (dirs (fsys sample_result))) \<noteq> 4"
  by code_simp

subsection \<open>The run returns\<close>

text \<open>
  The upward walk is the only loop of the program that its text does not bound. On the
  dictionary that \<^verbatim>\<open>find_parent_service\<close> builds it ends at the root, so the body of
  the loop over the items, the loop and the run return a state or an exception for
  every tree and every disk.
\<close>

lemma process_item_returns:
  assumes "elem_at root p = Some e"
  shows "\<exists>r. process_item root st (p, e) = Some r"
  by (simp add: process_item_def Let_def find_parent_service_resolve [OF assms]
      split: option.splits prod.splits)

lemma process_items_returns:
  "\<forall>(p, e) \<in> set items. elem_at root p = Some e \<Longrightarrow> \<exists>r. process_items root st items = Some r"
proof (induction items arbitrary: st)
  case Nil
  show ?case by simp
next
  case (Cons item items)
  obtain p e where item: "item = (p, e)" by (cases item)
  with Cons.prems have "elem_at root p = Some e" by simp
  from process_item_returns [OF this] obtain r where r: "process_item root st (p, e) = Some r"
    by blast
  from Cons.prems have valid: "\<forall>(p, e) \<in> set items. elem_at root p = Some e" by simp
  show ?case
  proof (cases r)
    case (Inl err)
    with r item show ?thesis by simp
  next
    case (Inr st1)
    with r item Cons.IH [OF valid, of st1] show ?thesis by simp
  qed
qed

lemma extract_scripts_with_structure_returns:
  "\<exists>r. extract_scripts_with_structure fs0 root = Some r"
  using process_items_returns [OF iter_tag_valid]
  by (simp add: extract_scripts_with_structure_def split: sum.splits)

text \<open>
  What the run returns can be an exception: on the tree with the script \<^verbatim>\<open>A\<close> and the
  folder \<^verbatim>\<open>A.lua\<close>, \<^verbatim>\<open>os.makedirs\<close> finds the file \<^verbatim>\<open>src/shared/A.lua\<close> where the folder
  needs its directory. The properties of the written files and of the directories are
  therefore stated for the runs that complete.
\<close>

lemma run_aborts_on_name_conflict:
  "extract_scripts_with_structure empty_fs conflict_tree
     = Some (Inl (FileExistsError ''src/shared/A.lua''))"
  by code_simp

end
